theory Spec2Isabelle
  imports Main "HOL-Library.Char_ord" "HOL-Library.List_Lexorder" "HOL-Library.Word"
begin

section \<open>Data model of sync.go\<close>

text \<open>
  An object record as a listing returns it (\<^verbatim>\<open>object.Object\<close>): the key, a Go string,
  compared bytewise and lexicographically (the order of \<open>string\<close> given by the
  character order and the lexicographic order on lists), and the size, an int64 that
  the code only compares with a constant.
\<close>

record object =
  Key :: string
  Size :: int

text \<open>Errors are opaque values of the stores and of the file system.\<close>

datatype error = Err nat

text \<open>
  A channel of \<^verbatim>\<open>*object.Object\<close> is the list of values sent on it before it is closed;
  \<open>None\<close> is the nil pointer, the marker of a failed listing.
\<close>

type_synonym chan = "object option list"

text \<open>The package-level counters, all uint64 and updated by atomic increments.\<close>

record stats =
  found :: "64 word"
  missing :: "64 word"
  copied :: "64 word"
  failed :: "64 word"

section \<open>doSync: the merge-join of two listings\<close>

text \<open>
  The state of the main loop of \<^verbatim>\<open>doSync\<close>: the counters, the cursor \<^verbatim>\<open>dstkey\<close>, the flag
  \<^verbatim>\<open>hasMore\<close>, what is still to be received from \<^verbatim>\<open>dstkeys\<close>, and the objects sent
  on \<^verbatim>\<open>todo\<close> so far, in the order sent.
\<close>

record sync_state =
  counters :: stats
  dstkey :: string
  hasMore :: bool
  dstkeys :: chan
  todo :: "object list"

text \<open>
  The inner loop \<^verbatim>\<open>for hasMore && obj.Key > dstkey\<close>. A receive from the closed, drained
  channel clears \<^verbatim>\<open>hasMore\<close>; a nil leaves both loops (\<^verbatim>\<open>break OUT\<close>); an object moves the
  cursor.
\<close>

datatype advanced = Done bool string chan | BreakOut string chan

function advance :: "string \<Rightarrow> bool \<Rightarrow> string \<Rightarrow> chan \<Rightarrow> advanced" where
  "advance k hm dk ch =
     (if hm \<and> dk < k then
        (case ch of
           [] \<Rightarrow> advance k False dk []
         | None # ch' \<Rightarrow> BreakOut dk ch'
         | Some dstobj # ch' \<Rightarrow> advance k hm (Key dstobj) ch')
      else Done hm dk ch)"
  by pat_completeness auto
termination
  by (relation "measure (\<lambda>(k, hm, dk, ch). length ch + (if hm then 1 else 0))") auto

declare advance.simps [simp del]

text \<open>
  The body of the loop over \<^verbatim>\<open>srckeys\<close> for an object that is not nil: count it as found,
  advance the destination, then send it on \<^verbatim>\<open>todo\<close> and count it as missing when its key
  is below the cursor or the destination has no more. The flag returned says that the
  body left the loop by \<^verbatim>\<open>break OUT\<close>.
\<close>

definition sync_body :: "sync_state \<Rightarrow> object \<Rightarrow> bool \<times> sync_state" where
  "sync_body st obj =
     (let st1 = st\<lparr>counters := (counters st)\<lparr>found := found (counters st) + 1\<rparr>\<rparr> in
      case advance (Key obj) (hasMore st1) (dstkey st1) (dstkeys st1) of
        BreakOut dk ch \<Rightarrow> (True, st1\<lparr>dstkey := dk, dstkeys := ch\<rparr>)
      | Done hm dk ch \<Rightarrow>
          (let st2 = st1\<lparr>dstkey := dk, hasMore := hm, dstkeys := ch\<rparr> in
           if Key obj < dk \<or> \<not> hm then
             (False, st2\<lparr>todo := todo st2 @ [obj],
                counters := (counters st2)\<lparr>missing := missing (counters st2) + 1\<rparr>\<rparr>)
           else (False, st2)))"

text \<open>
  The loop \<^verbatim>\<open>for obj := range srckeys\<close>: it ends when the channel is closed and drained,
  at a nil, or when the body breaks out.
\<close>

fun sync_loop :: "sync_state \<Rightarrow> chan \<Rightarrow> sync_state" where
  "sync_loop st [] = st"
| "sync_loop st (None # srckeys) = st"
| "sync_loop st (Some obj # srckeys) =
     (case sync_body st obj of
        (True, st') \<Rightarrow> st'
      | (False, st') \<Rightarrow> sync_loop st' srckeys)"

text \<open>
  \<^verbatim>\<open>doSync\<close> starts the loop with an empty cursor and \<^verbatim>\<open>hasMore\<close> set. The workers that
  drain \<^verbatim>\<open>todo\<close> are modelled apart (\<open>worker\<close> below): what the loop sends does not
  depend on them, as long as they keep receiving.
\<close>

definition doSync :: "stats \<Rightarrow> chan \<Rightarrow> chan \<Rightarrow> sync_state" where
  "doSync cnt srckeys dstkeys0 =
     sync_loop \<lparr>counters = cnt, dstkey = '''', hasMore = True, dstkeys = dstkeys0, todo = []\<rparr>
       srckeys"

definition zero_stats :: stats where
  "zero_stats = \<lparr>found = 0, missing = 0, copied = 0, failed = 0\<rparr>"

text \<open>The number of objects (nil apart) that the loop receives from \<^verbatim>\<open>srckeys\<close>.\<close>

fun received :: "sync_state \<Rightarrow> chan \<Rightarrow> nat" where
  "received st [] = 0"
| "received st (None # srckeys) = 0"
| "received st (Some obj # srckeys) =
     (case sync_body st obj of
        (True, st') \<Rightarrow> 1
      | (False, st') \<Rightarrow> 1 + received st' srckeys)"

section \<open>Iterate: a paginated listing as one ordered stream\<close>

text \<open>
  The listing call of a store, \<^verbatim>\<open>store.List(prefix, marker, limit)\<close>: it answers with a page
  or an error. The answer may depend on the state of the store, which the call may
  change, so the state is passed and returned. The stores themselves are not part of
  sync.go and stay a parameter.
\<close>

type_synonym 's listing = "'s \<Rightarrow> string \<Rightarrow> string \<Rightarrow> nat \<Rightarrow> (error + object list) \<times> 's"

definition MaxResults :: nat where
  "MaxResults = 10240"

text \<open>
  The inner loop \<^verbatim>\<open>for _, obj := range objs\<close> over one page, from the last key sent. It
  gives the objects sent on \<^verbatim>\<open>out\<close>, the last key sent, and how the loop was left: at
  the end of the page, by \<^verbatim>\<open>break END\<close>, or by \<^verbatim>\<open>logger.Fatalf\<close>, which ends the process.
\<close>

datatype page_exit = PageDone | BreakEnd | FatalOrder

fun iterate_page :: "string \<Rightarrow> string \<Rightarrow> object list \<Rightarrow> object list \<times> string \<times> page_exit" where
  "iterate_page endkey lastkey [] = ([], lastkey, PageDone)"
| "iterate_page endkey lastkey (obj # objs) =
     (if Key obj \<noteq> '''' \<and> Key obj \<le> lastkey then ([], lastkey, FatalOrder)
      else if endkey \<noteq> '''' \<and> endkey \<le> Key obj then ([], lastkey, BreakEnd)
      else (case iterate_page endkey (Key obj) objs of
              (sent, lastkey', ex) \<Rightarrow> (obj # sent, lastkey', ex)))"

text \<open>
  What the goroutine of \<^verbatim>\<open>Iterate\<close> does, in order: it sends a value on \<^verbatim>\<open>out\<close> (nil after a
  failed listing), or it requests the next page with a marker. The listing may go on
  for ever, so the loop \<^verbatim>\<open>for len(objs) > 0\<close> runs on fuel, one unit for each page; when
  the fuel ends before the loop does, the goroutine is still \<open>Running\<close> and the events
  are those so far. Otherwise it has closed \<^verbatim>\<open>out\<close>, for one of three reasons, or it has
  ended the process by \<^verbatim>\<open>logger.Fatalf\<close>.
\<close>

datatype event = Request string | Send "object option"

datatype stop = EndReached | EmptyPage | ListFailed error

datatype ending = Closed stop | Fatal | Running

fun producer ::
  "nat \<Rightarrow> 's listing \<Rightarrow> 's \<Rightarrow> string \<Rightarrow> string \<Rightarrow> object list \<Rightarrow> event list \<times> ending" where
  "producer fuel store s endkey lastkey [] = ([], Closed EmptyPage)"
| "producer 0 store s endkey lastkey (obj # objs) = ([], Running)"
| "producer (Suc fuel) store s endkey lastkey (obj # objs) =
     (case iterate_page endkey lastkey (obj # objs) of
        (sent, marker, FatalOrder) \<Rightarrow> (map (Send \<circ> Some) sent, Fatal)
      | (sent, marker, BreakEnd) \<Rightarrow> (map (Send \<circ> Some) sent, Closed EndReached)
      | (sent, marker, PageDone) \<Rightarrow>
          (case store s '''' marker MaxResults of
             (Inl err, s') \<Rightarrow>
               (map (Send \<circ> Some) sent @ [Request marker, Send None], Closed (ListFailed err))
           | (Inr objs', s') \<Rightarrow>
               (case producer fuel store s' endkey marker objs' of
                  (evs, e) \<Rightarrow> (map (Send \<circ> Some) sent @ Request marker # evs, e))))"

text \<open>
  \<^verbatim>\<open>Iterate\<close> requests the first page itself and returns the error when that fails.
  Otherwise it returns the channel, here with all that the goroutine does: the first
  event is the first request, and the last key sent starts as the empty string.
\<close>

definition Iterate ::
  "nat \<Rightarrow> 's listing \<Rightarrow> 's \<Rightarrow> string \<Rightarrow> string \<Rightarrow> error + event list \<times> ending" where
  "Iterate fuel store s marker endkey =
     (case store s '''' marker MaxResults of
        (Inl err, s') \<Rightarrow> Inl err
      | (Inr objs, s') \<Rightarrow>
          (case producer fuel store s' endkey '''' objs of
             (evs, e) \<Rightarrow> Inr (Request marker # evs, e)))"

text \<open>The values sent on the channel, in order.\<close>

fun channel :: "event list \<Rightarrow> chan" where
  "channel [] = []"
| "channel (Request marker # evs) = channel evs"
| "channel (Send v # evs) = v # channel evs"

text \<open>
  The order that the goroutine keeps, read off its events from a last key: every
  request after the first uses the last key sent as its marker, and every key sent that
  is not empty is above the key sent just before it.
\<close>

fun ordered_after :: "string \<Rightarrow> event list \<Rightarrow> bool" where
  "ordered_after lastkey [] = True"
| "ordered_after lastkey (Request marker # evs) = (marker = lastkey \<and> ordered_after lastkey evs)"
| "ordered_after lastkey (Send None # evs) = ordered_after lastkey evs"
| "ordered_after lastkey (Send (Some obj) # evs) =
     ((Key obj = '''' \<or> lastkey < Key obj) \<and> ordered_after (Key obj) evs)"

text \<open>
  A store for the examples: it answers from a table from markers to pages, with an
  empty page for a marker that the table does not have, and it fails for the markers
  in \<open>bad\<close>.
\<close>

definition table_store :: "(string \<times> object list) list \<Rightarrow> string list \<Rightarrow> unit listing" where
  "table_store tab bad s prefix marker limit =
     (if marker \<in> set bad then (Inl (Err 1), s)
      else case map_of tab marker of None \<Rightarrow> (Inr [], s) | Some objs \<Rightarrow> (Inr objs, s))"

text \<open>The keys of the objects sent, in order.\<close>

fun sent_keys :: "event list \<Rightarrow> string list" where
  "sent_keys [] = []"
| "sent_keys (Request marker # evs) = sent_keys evs"
| "sent_keys (Send None # evs) = sent_keys evs"
| "sent_keys (Send (Some obj) # evs) = Key obj # sent_keys evs"

section \<open>replicate: copying one object\<close>

type_synonym byte = "8 word"

text \<open>
  What a read of a store hands back (an \<^verbatim>\<open>io.ReadCloser\<close>): the bytes it delivers, and
  then the end of the data or an error.
\<close>

datatype reader = Reader "byte list" "error option"

text \<open>
  The methods of \<^verbatim>\<open>object.ObjectStorage\<close> that \<^verbatim>\<open>replicate\<close> calls, with their results:
  \<^verbatim>\<open>Get(key, off, limit)\<close>, \<^verbatim>\<open>Exists(key)\<close>, whose error says that the key is not there, and
  \<^verbatim>\<open>Put(key, in)\<close>, given here the bytes that its reader delivers. The stores are not part
  of sync.go and stay a parameter.
\<close>

record storage =
  Get :: "string \<Rightarrow> int \<Rightarrow> int \<Rightarrow> error + reader"
  Exists :: "string \<Rightarrow> error option"
  Put :: "string \<Rightarrow> byte list \<Rightarrow> error option"

text \<open>
  The file system as far as it can fail: \<^verbatim>\<open>ioutil.TempFile\<close>, a write to the file, and
  \<^verbatim>\<open>f.Seek\<close>.
\<close>

record filesys =
  TempFile :: "error option"
  Write :: "byte list \<Rightarrow> error option"
  Seek :: "error option"

text \<open>What \<^verbatim>\<open>replicate\<close> does to the stores and to the file system, in order.\<close>

datatype action =
    SrcGet string int int
  | SrcExists string
  | DstPut string "byte list"
  | CreateTemp
  | Remove
  | WriteFile "byte list"
  | CopyToFile "byte list"
  | SeekStart
  | CloseFile

definition maxBlock :: int where
  "maxBlock = push_bit 20 10"

text \<open>
  \<^verbatim>\<open>io.Copy(f, in)\<close>: the bytes that the reader delivers are written to the file, and the
  error is that of the write or else that of the reader.
\<close>

definition copy_error :: "filesys \<Rightarrow> byte list \<Rightarrow> error option \<Rightarrow> error option" where
  "copy_error fs rest err =
     (case (if rest = [] then None else Write fs rest) of Some e \<Rightarrow> Some e | None \<Rightarrow> err)"

text \<open>
  \<^verbatim>\<open>replicate\<close> returns its error (\<open>None\<close> is nil) and what it did. The file is closed by
  the deferred \<^verbatim>\<open>f.Close()\<close> on every way out after it was created.
\<close>

definition replicate_obj ::
  "storage \<Rightarrow> storage \<Rightarrow> filesys \<Rightarrow> object \<Rightarrow> error option \<times> action list" where
  "replicate_obj src dst fs obj =
     (let key = Key obj;
          firstBlock = (if maxBlock < Size obj then maxBlock else - 1);
          t0 = [SrcGet key 0 firstBlock] in
      case Get src key 0 firstBlock of
        Inl e \<Rightarrow>
          if Exists src key \<noteq> None then (None, t0 @ [SrcExists key])
          else (Some e, t0 @ [SrcExists key])
      | Inr (Reader data err) \<Rightarrow>
          if err \<noteq> None then (err, t0)
          else if firstBlock = - 1 then (Put dst key data, t0 @ [DstPut key data])
          else if TempFile fs \<noteq> None then (TempFile fs, t0 @ [CreateTemp])
          else
            (let t1 = t0 @ [CreateTemp, Remove, WriteFile data] in
             if Write fs data \<noteq> None then (Write fs data, t1 @ [CloseFile])
             else
               (let t2 = t1 @ [SrcGet key (int (length data)) (- 1)] in
                case Get src key (int (length data)) (- 1) of
                  Inl e \<Rightarrow> (Some e, t2 @ [CloseFile])
                | Inr (Reader rest err') \<Rightarrow>
                    (let t3 = t2 @ [CopyToFile rest] in
                     if copy_error fs rest err' \<noteq> None
                     then (copy_error fs rest err', t3 @ [CloseFile])
                     else if Seek fs \<noteq> None then (Seek fs, t3 @ [SeekStart, CloseFile])
                     else (Put dst key (data @ rest),
                           t3 @ [SeekStart, DstPut key (data @ rest), CloseFile])))))"

text \<open>
  One turn of a worker of \<^verbatim>\<open>doSync\<close> on an object received from \<^verbatim>\<open>todo\<close>: \<^verbatim>\<open>failed\<close> counts
  an error of \<^verbatim>\<open>replicate\<close>, \<^verbatim>\<open>copied\<close> counts the rest.
\<close>

definition worker :: "storage \<Rightarrow> storage \<Rightarrow> filesys \<Rightarrow> stats \<Rightarrow> object \<Rightarrow> stats" where
  "worker src dst fs cnt obj =
     (if fst (replicate_obj src dst fs obj) \<noteq> None then cnt\<lparr>failed := failed cnt + 1\<rparr>
      else cnt\<lparr>copied := copied cnt + 1\<rparr>)"

text \<open>
  Modelled from the spec: the stores (package \<^verbatim>\<open>object\<close>) are not under src. The spec has
  \<^verbatim>\<open>read(key, offset, length)\<close> deliver the bytes of the object from the offset,
  \<open>length\<close> of them or, for the length -1, all up to the end of the object, and
  \<^verbatim>\<open>exists(key)\<close> say whether the store has the key. \<open>holding m\<close> is a store that holds
  the objects of the map \<open>m\<close> and answers so; it accepts every write.
\<close>

definition read_range :: "byte list \<Rightarrow> int \<Rightarrow> int \<Rightarrow> byte list" where
  "read_range content off len =
     (if len < 0 then drop (nat off) content else take (nat len) (drop (nat off) content))"

definition holding :: "(string \<rightharpoonup> byte list) \<Rightarrow> storage" where
  "holding m =
     \<lparr>Get = (\<lambda>key off len.
         case m key of
           None \<Rightarrow> Inl (Err 404)
         | Some content \<Rightarrow> Inr (Reader (read_range content off len) None)),
      Exists = (\<lambda>key. if m key = None then Some (Err 404) else None),
      Put = (\<lambda>key bytes. None)\<rparr>"

text \<open>A file system that does not fail, for the examples.\<close>

definition sound_fs :: filesys where
  "sound_fs = \<lparr>TempFile = None, Write = (\<lambda>bytes. None), Seek = None\<rparr>"

section \<open>showProgress: the progress bar\<close>

text \<open>
  Go's division of unsigned 64-bit integers: a division by zero is a run-time panic,
  which ends the process.
\<close>

datatype panic = DivideByZero

definition div64 :: "64 word \<Rightarrow> 64 word \<Rightarrow> panic + 64 word" where
  "div64 x y = (if y = 0 then Inl DivideByZero else Inr (x div y))"

text \<open>The loop that fills the 80 bytes of the bar from the widths \<open>a\<close> and \<open>b\<close>.\<close>

definition bar_of :: "64 word \<Rightarrow> 64 word \<Rightarrow> string" where
  "bar_of a b =
     map (\<lambda>i. if (of_nat i :: 64 word) < a then CHR ''=''
              else if of_nat i < a + b then CHR ''+'' else CHR '' '') [0..<80]"

text \<open>
  One turn of the loop of \<^verbatim>\<open>showProgress\<close>, from the counters as it reads them, here in one
  snapshot: the bar and the percentage that it prints, or the panic. The rate per second
  is a floating-point number and is left out.
\<close>

definition showProgress_step :: "stats \<Rightarrow> panic + string \<times> 64 word" where
  "showProgress_step cnt =
     (let same = found cnt - missing cnt; width = 80 in
      case div64 (width * same) (found cnt) of
        Inl p \<Rightarrow> Inl p
      | Inr a \<Rightarrow>
          (case div64 (width * copied cnt) (found cnt) of
             Inl p \<Rightarrow> Inl p
           | Inr b \<Rightarrow>
               (case div64 ((found cnt - missing cnt + copied cnt) * 100) (found cnt) of
                  Inl p \<Rightarrow> Inl p
                | Inr percent \<Rightarrow> Inr (bar_of a b, percent))))"

section \<open>Sync: the orchestrator\<close>

text \<open>
  The workers of \<^verbatim>\<open>doSync\<close> take every object sent on \<^verbatim>\<open>todo\<close>, each object once, and
  \<^verbatim>\<open>doSync\<close> waits for them (\<^verbatim>\<open>wg.Wait()\<close>): together they leave the counters as one worker
  does that takes the objects in turn, since a turn only adds one to \<^verbatim>\<open>copied\<close> or to
  \<^verbatim>\<open>failed\<close>.
\<close>

definition workers :: "storage \<Rightarrow> storage \<Rightarrow> filesys \<Rightarrow> stats \<Rightarrow> object list \<Rightarrow> stats" where
  "workers src dst fs cnt objs = foldl (worker src dst fs) cnt objs"

text \<open>
  What a call of \<^verbatim>\<open>Sync\<close> comes to: it returns an error (\<open>None\<close> is nil), with the counters
  as they are then, those that it logs before it returns nil; or the model does not
  say (\<open>Undetermined\<close>), because it hangs on the interleaving of the goroutines whether
  the process is ended first, or because the fuel does not reach the end of a listing.
\<close>

datatype outcome = Returned "error option" stats | Undetermined

text \<open>
  A store is given by its listing with the state of it, and by the methods that
  \<^verbatim>\<open>replicate\<close> calls. \<open>progress\<close> is the test \<^verbatim>\<open>tty && !*verbose && !*quiet\<close>.

  \<^verbatim>\<open>Sync\<close> returns the error of the first \<^verbatim>\<open>Iterate\<close> at once: no goroutine runs yet. The
  goroutine of the source runs from the moment the first \<^verbatim>\<open>Iterate\<close> returns. So when the
  second \<^verbatim>\<open>Iterate\<close> fails, \<^verbatim>\<open>Sync\<close> is sure to return that error only if the goroutine of
  the source closes its channel; if it ends the process by \<^verbatim>\<open>logger.Fatalf\<close>, the process
  may be over before \<^verbatim>\<open>Sync\<close> returns. When both calls succeed, \<^verbatim>\<open>Sync\<close> starts the progress
  reporter if \<open>progress\<close> holds, runs \<^verbatim>\<open>doSync\<close> and returns nil. That is sure when both
  goroutines close their channels and no reporter runs beside, whose division may
  panic (\<open>showProgress_step\<close>).
\<close>

definition Sync ::
  "nat \<Rightarrow> 's listing \<Rightarrow> 's \<Rightarrow> storage \<Rightarrow> 't listing \<Rightarrow> 't \<Rightarrow> storage \<Rightarrow> filesys \<Rightarrow> bool \<Rightarrow>
   string \<Rightarrow> string \<Rightarrow> stats \<Rightarrow> outcome" where
  "Sync fuel src_list s_src src dst_list s_dst dst fs progress marker endkey cnt =
     (case Iterate fuel src_list s_src marker endkey of
        Inl err \<Rightarrow> Returned (Some err) cnt
      | Inr (cha, ea) \<Rightarrow>
          (case Iterate fuel dst_list s_dst marker endkey of
             Inl err \<Rightarrow>
               (case ea of
                  Closed ra \<Rightarrow> Returned (Some err) cnt
                | _ \<Rightarrow> Undetermined)
           | Inr (chb, eb) \<Rightarrow>
               (case (ea, eb) of
                  (Closed ra, Closed rb) \<Rightarrow>
                    if progress then Undetermined
                    else
                      (let st = doSync cnt (channel cha) (channel chb) in
                       Returned None (workers src dst fs (counters st) (todo st)))
                | _ \<Rightarrow> Undetermined)))"

section \<open>Properties of doSync\<close>

lemma advance_stay: "\<not> (hm \<and> dk < k) \<Longrightarrow> advance k hm dk ch = Done hm dk ch"
  by (subst advance.simps) auto

lemma advance_closed: "hm \<Longrightarrow> dk < k \<Longrightarrow> advance k hm dk [] = Done False dk []"
  by (subst advance.simps, simp, subst advance.simps, simp)

lemma advance_nil_obj: "hm \<Longrightarrow> dk < k \<Longrightarrow> advance k hm dk (None # ch) = BreakOut dk ch"
  by (subst advance.simps) simp

lemma advance_recv: "hm \<Longrightarrow> dk < k \<Longrightarrow> advance k hm dk (Some d # ch) = advance k hm (Key d) ch"
  by (subst advance.simps) simp


lemma advance_dropWhile:
  "dk < k \<Longrightarrow> advance k True dk (map Some ds) =
     (case dropWhile (\<lambda>d. Key d < k) ds of
        [] \<Rightarrow> Done False (last (dk # map Key ds)) []
      | d # ds' \<Rightarrow> Done True (Key d) (map Some ds'))"
proof (induction ds arbitrary: dk)
  case Nil
  then show ?case by (simp add: advance_closed)
next
  case (Cons d ds)
  show ?case
  proof (cases "Key d < k")
    case True
    then show ?thesis using Cons.IH [OF True] Cons.prems
      by (simp add: advance_recv cong: list.case_cong)
  next
    case False
    then show ?thesis using Cons.prems by (simp add: advance_recv advance_stay)
  qed
qed

lemma sync_body_closed:
  "\<not> hasMore st \<Longrightarrow> sync_body st obj =
     (False, st\<lparr>counters := (counters st)\<lparr>found := found (counters st) + 1,
                       missing := missing (counters st) + 1\<rparr>, todo := todo st @ [obj]\<rparr>)"
  by (simp add: sync_body_def advance_stay Let_def)

lemma sync_body_stay:
  "hasMore st \<Longrightarrow> \<not> dstkey st < Key obj \<Longrightarrow> sync_body st obj =
     (False,
      if Key obj < dstkey st
      then st\<lparr>counters := (counters st)\<lparr>found := found (counters st) + 1,
                       missing := missing (counters st) + 1\<rparr>, todo := todo st @ [obj]\<rparr>
      else st\<lparr>counters := (counters st)\<lparr>found := found (counters st) + 1\<rparr>\<rparr>)"
  by (simp add: sync_body_def advance_stay Let_def)

lemma sync_body_done:
  "advance (Key obj) hm0 dk0 ch0 = Done hm dk ch \<Longrightarrow>
   sync_body \<lparr>counters = c, dstkey = dk0, hasMore = hm0, dstkeys = ch0, todo = q\<rparr> obj =
     (False,
      if Key obj < dk \<or> \<not> hm
      then \<lparr>counters = c\<lparr>found := found c + 1, missing := missing c + 1\<rparr>,
             dstkey = dk, hasMore = hm, dstkeys = ch, todo = q @ [obj]\<rparr>
      else \<lparr>counters = c\<lparr>found := found c + 1\<rparr>,
             dstkey = dk, hasMore = hm, dstkeys = ch, todo = q\<rparr>)"
  by (simp add: sync_body_def Let_def)

lemma sync_loop_closed:
  "\<not> hasMore st \<Longrightarrow> todo (sync_loop st (map Some xs)) = todo st @ xs"
  by (induction xs arbitrary: st) (simp_all add: sync_body_closed)

lemma sync_loop_sorted:
  "sorted_wrt (<) (map Key xs) \<Longrightarrow> sorted_wrt (<) (map Key ds) \<Longrightarrow>
   \<forall>d\<in>set ds. dk \<le> Key d \<Longrightarrow>
   todo (sync_loop \<lparr>counters = c, dstkey = dk, hasMore = True, dstkeys = map Some ds, todo = q\<rparr>
      (map Some xs)) = q @ filter (\<lambda>obj. Key obj \<noteq> dk \<and> Key obj \<notin> Key ` set ds) xs"
proof (induction xs arbitrary: c dk ds q)
  case Nil
  then show ?case by simp
next
  case (Cons x xs)
  let ?st = "\<lparr>counters = c, dstkey = dk, hasMore = True, dstkeys = map Some ds, todo = q\<rparr>"
  have sxs: "sorted_wrt (<) (map Key xs)" and gt: "\<And>y. y \<in> set xs \<Longrightarrow> Key x < Key y"
    using Cons.prems(1) by auto
  have ge: "\<And>d. d \<in> set ds \<Longrightarrow> dk \<le> Key d"
    using Cons.prems(3) by blast
  show ?case
  proof (cases "dk < Key x")
    case False
    have notin: "Key x \<in> Key ` set ds \<Longrightarrow> Key x = dk"
      using False ge by force
    have body: "sync_body ?st x =
       (False, if Key x < dk
          then ?st\<lparr>counters := c\<lparr>found := found c + 1, missing := missing c + 1\<rparr>,
                   todo := q @ [x]\<rparr>
          else ?st\<lparr>counters := c\<lparr>found := found c + 1\<rparr>\<rparr>)"
      using False by (simp add: sync_body_stay)
    show ?thesis
    proof (cases "Key x < dk")
      case True
      then have keep: "Key x \<noteq> dk \<and> Key x \<notin> Key ` set ds" using notin by auto
      show ?thesis
        using True keep body Cons.IH [OF sxs Cons.prems(2) Cons.prems(3)] by simp
    next
      case F: False
      then have "Key x = dk" using False by simp
      then show ?thesis
        using F body Cons.IH [OF sxs Cons.prems(2) Cons.prems(3)] by simp
    qed
  next
    case True
    let ?P = "\<lambda>d. Key d < Key x"
    have adv: "advance (Key x) True dk (map Some ds) =
       (case dropWhile ?P ds of
          [] \<Rightarrow> Done False (last (dk # map Key ds)) []
        | d # ds' \<Rightarrow> Done True (Key d) (map Some ds'))"
      using True by (rule advance_dropWhile)
    show ?thesis
    proof (cases "dropWhile ?P ds")
      case dw: Nil
      then have below: "\<And>d. d \<in> set ds \<Longrightarrow> Key d < Key x"
        by (simp add: dropWhile_eq_Nil_conv)
      have keepx: "Key x \<noteq> dk \<and> Key x \<notin> Key ` set ds"
        using True below by force
      have "\<And>y. y \<in> set xs \<Longrightarrow> Key y \<noteq> dk \<and> Key y \<notin> Key ` set ds"
      proof -
        fix y assume y: "y \<in> set xs"
        have "dk < Key y" using gt [OF y] True by simp
        moreover have "\<And>d. d \<in> set ds \<Longrightarrow> Key d < Key y"
          using below gt [OF y] by force
        ultimately show "Key y \<noteq> dk \<and> Key y \<notin> Key ` set ds" by force
      qed
      then have all: "filter (\<lambda>obj. Key obj \<noteq> dk \<and> Key obj \<notin> Key ` set ds) xs = xs"
        by (simp add: filter_id_conv)
      obtain dkl where adv': "advance (Key x) True dk (map Some ds) = Done False dkl []"
        using adv dw by simp
      have body: "sync_body ?st x =
         (False, \<lparr>counters = c\<lparr>found := found c + 1, missing := missing c + 1\<rparr>,
                   dstkey = dkl, hasMore = False, dstkeys = [], todo = q @ [x]\<rparr>)"
        using sync_body_done [OF adv'] by simp
      show ?thesis
        using body keepx all by (simp add: sync_loop_closed)
    next
      case dw: (Cons d ds')
      have split: "ds = takeWhile ?P ds @ d # ds'"
        using dw takeWhile_dropWhile_id [of ?P ds] by simp
      have dge: "Key x \<le> Key d"
        using dw hd_dropWhile [of ?P ds] by fastforce
      have skipped: "\<And>e. e \<in> set (takeWhile ?P ds) \<Longrightarrow> Key e < Key x"
        using set_takeWhileD by fastforce
      have srt: "sorted_wrt (<) (map Key (takeWhile ?P ds @ d # ds'))"
        using Cons.prems(2) split by simp
      then have srt': "sorted_wrt (<) (map Key ds')" and later: "\<And>e. e \<in> set ds' \<Longrightarrow> Key d < Key e"
        by (auto simp: sorted_wrt_append)
      have le': "\<forall>e\<in>set ds'. Key d \<le> Key e"
        using later by force
      have mem: "\<And>k. k \<in> Key ` set ds \<longleftrightarrow>
                   k \<in> Key ` set (takeWhile ?P ds) \<or> k = Key d \<or> k \<in> Key ` set ds'"
        by (subst split) auto
      have keepx: "(Key x \<noteq> dk \<and> Key x \<notin> Key ` set ds) \<longleftrightarrow> Key x < Key d"
      proof -
        have a: "Key x \<notin> Key ` set (takeWhile ?P ds)" using skipped by force
        have b: "Key x \<notin> Key ` set ds'" using later dge by force
        show ?thesis using a b mem [of "Key x"] True dge by auto
      qed
      have rest: "filter (\<lambda>obj. Key obj \<noteq> dk \<and> Key obj \<notin> Key ` set ds) xs =
                  filter (\<lambda>obj. Key obj \<noteq> Key d \<and> Key obj \<notin> Key ` set ds') xs"
      proof (rule filter_cong [OF refl])
        fix y assume y: "y \<in> set xs"
        have a: "Key y \<notin> Key ` set (takeWhile ?P ds)" using skipped gt [OF y] by force
        have b: "Key y \<noteq> dk" using gt [OF y] True by auto
        show "(Key y \<noteq> dk \<and> Key y \<notin> Key ` set ds) = (Key y \<noteq> Key d \<and> Key y \<notin> Key ` set ds')"
          using a b mem [of "Key y"] by auto
      qed
      have adv': "advance (Key x) True dk (map Some ds) = Done True (Key d) (map Some ds')"
        using adv dw by simp
      have body: "sync_body ?st x =
         (False, if Key x < Key d
            then \<lparr>counters = c\<lparr>found := found c + 1, missing := missing c + 1\<rparr>,
                   dstkey = Key d, hasMore = True, dstkeys = map Some ds', todo = q @ [x]\<rparr>
            else \<lparr>counters = c\<lparr>found := found c + 1\<rparr>,
                   dstkey = Key d, hasMore = True, dstkeys = map Some ds', todo = q\<rparr>)"
        using sync_body_done [OF adv'] by simp
      show ?thesis
      proof (cases "Key x < Key d")
        case True
        show ?thesis
          using True body keepx rest Cons.IH [OF sxs srt' le'] by simp
      next
        case False
        show ?thesis
          using False body keepx rest Cons.IH [OF sxs srt' le'] by simp
      qed
    qed
  qed
qed


lemma sync_body_counts:
  "sync_body st obj = (b, st') \<Longrightarrow>
   found (counters st') = found (counters st) + 1 \<and>
   (todo st' = todo st @ [obj] \<and> missing (counters st') = missing (counters st) + 1 \<or>
    todo st' = todo st \<and> missing (counters st') = missing (counters st))"
  by (auto simp: sync_body_def Let_def split: advanced.splits if_splits)

lemma sync_loop_counts:
  "\<exists>m. length (todo (sync_loop st src)) = length (todo st) + m \<and>
       m \<le> received st src \<and>
       missing (counters (sync_loop st src)) = missing (counters st) + of_nat m \<and>
       found (counters (sync_loop st src)) = found (counters st) + of_nat (received st src)"
proof (induction st src rule: sync_loop.induct)
  case (1 st)
  then show ?case by simp
next
  case (2 st srckeys)
  then show ?case by simp
next
  case (3 st obj srckeys)
  obtain b st' where body: "sync_body st obj = (b, st')"
    by (cases "sync_body st obj")
  note cnt = sync_body_counts [OF body]
  show ?case
  proof (cases b)
    case True
    from cnt show ?thesis
    proof (elim conjE disjE)
      assume "todo st' = todo st @ [obj]" "missing (counters st') = missing (counters st) + 1"
        "found (counters st') = found (counters st) + 1"
      then show ?thesis using body True by (intro exI [of _ 1]) simp
    next
      assume "todo st' = todo st" "missing (counters st') = missing (counters st)"
        "found (counters st') = found (counters st) + 1"
      then show ?thesis using body True by (intro exI [of _ 0]) simp
    qed
  next
    case False
    from "3.IH" body False obtain m where
      m: "length (todo (sync_loop st' srckeys)) = length (todo st') + m"
         "m \<le> received st' srckeys"
         "missing (counters (sync_loop st' srckeys)) = missing (counters st') + of_nat m"
         "found (counters (sync_loop st' srckeys)) =
            found (counters st') + of_nat (received st' srckeys)"
      by auto
    from cnt show ?thesis
    proof (elim conjE disjE)
      assume "todo st' = todo st @ [obj]" "missing (counters st') = missing (counters st) + 1"
        "found (counters st') = found (counters st) + 1"
      then show ?thesis using body False m by (intro exI [of _ "Suc m"]) simp
    next
      assume "todo st' = todo st" "missing (counters st') = missing (counters st)"
        "found (counters st') = found (counters st) + 1"
      then show ?thesis using body False m by (intro exI [of _ m]) simp
    qed
  qed
qed

lemma received_le: "received st src \<le> length (takeWhile (\<lambda>e. e \<noteq> None) src)"
  by (induction st src rule: received.induct) (auto split: prod.splits bool.splits)

lemma sync_loop_nil: "sync_loop st (xs @ None # ys) = sync_loop st xs"
  by (induction st xs rule: sync_loop.induct) (auto split: prod.splits bool.splits)

lemma received_nil: "received st (xs @ None # ys) = received st xs"
  by (induction st xs rule: received.induct) (auto split: prod.splits bool.splits)

lemma advance_no_nil:
  "None \<notin> set ch \<Longrightarrow> \<exists>hm' dk' ch'. advance k hm dk ch = Done hm' dk' ch' \<and> None \<notin> set ch'"
proof (induction k hm dk ch rule: advance.induct)
  case (1 k hm dk ch)
  show ?case
  proof (cases "hm \<and> dk < k")
    case False
    then have "advance k hm dk ch = Done hm dk ch" by (simp add: advance_stay)
    then show ?thesis using "1.prems" by blast
  next
    case True
    show ?thesis
    proof (cases ch)
      case Nil
      then have "advance k hm dk ch = Done False dk [] \<and> None \<notin> set ([] :: chan)"
        using True by (simp add: advance_closed)
      then show ?thesis by blast
    next
      case (Cons v ch')
      then obtain d where v: "v = Some d" using "1.prems" by (cases v) auto
      have "None \<notin> set ch'" using "1.prems" Cons by simp
      from "1.IH"(2) [OF True Cons v this] show ?thesis
        using True Cons v by (simp add: advance_recv)
    qed
  qed
qed

lemma sync_body_no_nil:
  assumes "None \<notin> set (dstkeys st)"
  shows "\<exists>st'. sync_body st obj = (False, st') \<and> None \<notin> set (dstkeys st')"
proof -
  from advance_no_nil [OF assms, of "Key obj" "hasMore st" "dstkey st"]
  obtain hm dk ch where adv: "advance (Key obj) (hasMore st) (dstkey st) (dstkeys st) = Done hm dk ch"
    and ch: "None \<notin> set ch"
    by blast
  show ?thesis
  proof (cases "Key obj < dk \<or> \<not> hm")
    case True
    then show ?thesis using adv ch by (simp add: sync_body_def Let_def)
  next
    case False
    then show ?thesis using adv ch by (simp add: sync_body_def Let_def)
  qed
qed

lemma received_all:
  "None \<notin> set (dstkeys st) \<Longrightarrow> received st src = length (takeWhile (\<lambda>e. e \<noteq> None) src)"
proof (induction st src rule: received.induct)
  case (1 st)
  then show ?case by simp
next
  case (2 st srckeys)
  then show ?case by simp
next
  case (3 st obj srckeys)
  from sync_body_no_nil [OF "3.prems", of obj]
  obtain st' where body: "sync_body st obj = (False, st')" and keys: "None \<notin> set (dstkeys st')"
    by blast
  have "received st' srckeys = length (takeWhile (\<lambda>e. e \<noteq> None) srckeys)"
    using "3.IH" body keys by simp
  then show ?case using body by simp
qed


text \<open>
  Claim C1, as the code has it. For finite listings without failure marker whose keys are
  strictly increasing, \<^verbatim>\<open>doSync\<close> sends on \<^verbatim>\<open>todo\<close>, in the order of the source listing,
  exactly the source records whose key is not empty and is not a key of the destination
  listing. A source record with the empty key is never sent, whether the destination
  lists that key or not.
\<close>

theorem doSync_source_minus_destination:
  assumes "sorted_wrt (<) (map Key S)" and "sorted_wrt (<) (map Key D)"
  shows "todo (doSync cnt (map Some S) (map Some D)) =
           filter (\<lambda>obj. Key obj \<noteq> '''' \<and> Key obj \<notin> Key ` set D) S"
  unfolding doSync_def using assms by (simp add: sync_loop_sorted)

theorem doSync_source_minus_destination_witness:
  "sorted_wrt (<) (map Key [\<lparr>Key = ''a'', Size = 100\<rparr>, \<lparr>Key = ''b'', Size = 100\<rparr>,
      \<lparr>Key = ''c'', Size = 100\<rparr>]) \<and>
   sorted_wrt (<) (map Key [\<lparr>Key = ''b'', Size = 100\<rparr>]) \<and>
   todo (doSync zero_stats
      (map Some [\<lparr>Key = ''a'', Size = 100\<rparr>, \<lparr>Key = ''b'', Size = 100\<rparr>,
         \<lparr>Key = ''c'', Size = 100\<rparr>])
      (map Some [\<lparr>Key = ''b'', Size = 100\<rparr>])) =
     [\<lparr>Key = ''a'', Size = 100\<rparr>, \<lparr>Key = ''c'', Size = 100\<rparr>]"
  using doSync_source_minus_destination [of
      "[\<lparr>Key = ''a'', Size = 100\<rparr>, \<lparr>Key = ''b'', Size = 100\<rparr>, \<lparr>Key = ''c'', Size = 100\<rparr>]"
      "[\<lparr>Key = ''b'', Size = 100\<rparr>]" zero_stats]
  by simp

text \<open>
  Claim C1 as stated fails for the empty key: the source lists the empty key and
  \<open>''a''\<close>, the destination lists \<open>''b''\<close>; both listings are strictly increasing and
  the destination has neither source key, yet only \<open>''a''\<close> is sent.
\<close>

theorem doSync_empty_key_counterexample:
  "sorted_wrt (<) (map Key [\<lparr>Key = '''', Size = 3\<rparr>, \<lparr>Key = ''a'', Size = 3\<rparr>]) \<and>
   sorted_wrt (<) (map Key [\<lparr>Key = ''b'', Size = 3\<rparr>]) \<and>
   todo (doSync zero_stats
      (map Some [\<lparr>Key = '''', Size = 3\<rparr>, \<lparr>Key = ''a'', Size = 3\<rparr>])
      (map Some [\<lparr>Key = ''b'', Size = 3\<rparr>])) = [\<lparr>Key = ''a'', Size = 3\<rparr>] \<and>
   filter (\<lambda>obj. Key obj \<notin> Key ` set [\<lparr>Key = ''b'', Size = 3\<rparr>])
      [\<lparr>Key = '''', Size = 3\<rparr>, \<lparr>Key = ''a'', Size = 3\<rparr>] =
     [\<lparr>Key = '''', Size = 3\<rparr>, \<lparr>Key = ''a'', Size = 3\<rparr>]"
  by (simp add: doSync_def sync_body_def advance.simps)

text \<open>
  Claim C9. From counters at zero and for a source channel of fewer than \<open>2 ^ 64\<close>
  values, at every point of the loop (after any number \<open>n\<close> of values received from the
  source) \<^verbatim>\<open>missing\<close> is the number of objects sent on \<^verbatim>\<open>todo\<close>, \<^verbatim>\<open>found\<close> is the number of
  objects received from the source, nil not counted (with a destination that lists
  without failure: the number of source records before the first nil), and \<^verbatim>\<open>missing\<close>
  is at most \<^verbatim>\<open>found\<close>; a nil received from the source ends the loop and changes neither
  counter.
\<close>

theorem doSync_counters:
  assumes "length srckeys < 2 ^ 64"
  shows "missing (counters (doSync zero_stats (take n srckeys) dst)) =
           of_nat (length (todo (doSync zero_stats (take n srckeys) dst))) \<and>
         found (counters (doSync zero_stats (take n srckeys) dst)) =
           of_nat (received \<lparr>counters = zero_stats, dstkey = '''', hasMore = True,
                              dstkeys = dst, todo = []\<rparr> (take n srckeys)) \<and>
         (None \<notin> set dst \<longrightarrow>
            found (counters (doSync zero_stats (take n srckeys) dst)) =
              of_nat (length (takeWhile (\<lambda>e. e \<noteq> None) (take n srckeys)))) \<and>
         missing (counters (doSync zero_stats (take n srckeys) dst)) \<le>
           found (counters (doSync zero_stats (take n srckeys) dst)) \<and>
         doSync zero_stats (take n srckeys @ None # later) dst =
           doSync zero_stats (take n srckeys) dst"
proof -
  let ?st = "\<lparr>counters = zero_stats, dstkey = '''', hasMore = True, dstkeys = dst, todo = []\<rparr>"
  let ?src = "take n srckeys"
  from sync_loop_counts [of ?st ?src] obtain m where
    m: "length (todo (sync_loop ?st ?src)) = m" "m \<le> received ?st ?src"
       "missing (counters (sync_loop ?st ?src)) = of_nat m"
       "found (counters (sync_loop ?st ?src)) = of_nat (received ?st ?src)"
    by (auto simp: zero_stats_def)
  have "received ?st ?src \<le> length ?src"
    using received_le [of ?st ?src] length_takeWhile_le [of "\<lambda>e. e \<noteq> None" ?src]
    by (rule order_trans)
  then have bound: "received ?st ?src < 2 ^ 64"
    using assms by simp
  have le: "(of_nat m :: 64 word) \<le> of_nat (received ?st ?src)"
    using m(2) bound by (simp add: word_le_nat_alt unat_of_nat)
  have all: "None \<notin> set dst \<Longrightarrow>
      received ?st ?src = length (takeWhile (\<lambda>e. e \<noteq> None) ?src)"
    using received_all [of ?st ?src] by simp
  show ?thesis
    unfolding doSync_def using m le all by (simp add: sync_loop_nil)
qed

theorem doSync_counters_witness:
  "length [Some \<lparr>Key = ''a'', Size = 1\<rparr>, Some \<lparr>Key = ''b'', Size = 1\<rparr>, None,
      Some \<lparr>Key = ''c'', Size = 1\<rparr>] < 2 ^ 64 \<and>
   found (counters (doSync zero_stats
      [Some \<lparr>Key = ''a'', Size = 1\<rparr>, Some \<lparr>Key = ''b'', Size = 1\<rparr>, None,
       Some \<lparr>Key = ''c'', Size = 1\<rparr>] [Some \<lparr>Key = ''b'', Size = 1\<rparr>])) = 2 \<and>
   missing (counters (doSync zero_stats
      [Some \<lparr>Key = ''a'', Size = 1\<rparr>, Some \<lparr>Key = ''b'', Size = 1\<rparr>, None,
       Some \<lparr>Key = ''c'', Size = 1\<rparr>] [Some \<lparr>Key = ''b'', Size = 1\<rparr>])) = 1"
  using doSync_counters [of
      "[Some \<lparr>Key = ''a'', Size = 1\<rparr>, Some \<lparr>Key = ''b'', Size = 1\<rparr>, None,
        Some \<lparr>Key = ''c'', Size = 1\<rparr>]" 4 "[Some \<lparr>Key = ''b'', Size = 1\<rparr>]" "[]"]
  by (simp add: doSync_def sync_body_def advance.simps zero_stats_def)

text \<open>
  Claim C10. A source record with the empty key that the loop receives while the cursor
  is still the empty string and \<^verbatim>\<open>hasMore\<close> is set is counted in \<^verbatim>\<open>found\<close> and nothing else
  changes: nothing is received from the destination channel, whatever it holds, and the
  record is not sent on \<^verbatim>\<open>todo\<close>.
\<close>

theorem empty_key_treated_as_present:
  assumes "Key obj = ''''" and "dstkey st = ''''" and "hasMore st"
  shows "sync_body st obj =
           (False, st\<lparr>counters := (counters st)\<lparr>found := found (counters st) + 1\<rparr>\<rparr>)"
  using assms by (simp add: sync_body_def advance_stay Let_def)

theorem empty_key_treated_as_present_witness:
  "Key \<lparr>Key = '''', Size = 7\<rparr> = '''' \<and>
   sync_body \<lparr>counters = zero_stats, dstkey = '''', hasMore = True,
       dstkeys = [Some \<lparr>Key = ''a'', Size = 1\<rparr>], todo = []\<rparr> \<lparr>Key = '''', Size = 7\<rparr> =
     (False, \<lparr>counters = zero_stats\<lparr>found := 1\<rparr>, dstkey = '''', hasMore = True,
       dstkeys = [Some \<lparr>Key = ''a'', Size = 1\<rparr>], todo = []\<rparr>)"
  using empty_key_treated_as_present [of "\<lparr>Key = '''', Size = 7\<rparr>"
      "\<lparr>counters = zero_stats, dstkey = '''', hasMore = True,
        dstkeys = [Some \<lparr>Key = ''a'', Size = 1\<rparr>], todo = []\<rparr>"]
  by (simp add: zero_stats_def)
section \<open>Properties of Iterate\<close>

lemma iterate_page_then:
  "iterate_page endkey lastkey objs = (sent, lk, ex) \<Longrightarrow> ordered_after lk evs \<Longrightarrow>
   ordered_after lastkey (map (Send \<circ> Some) sent @ evs)"
proof (induction objs arbitrary: lastkey sent lk ex)
  case Nil
  then show ?case by simp
next
  case (Cons obj objs)
  show ?case
  proof (cases "(Key obj \<noteq> '''' \<and> Key obj \<le> lastkey) \<or> (endkey \<noteq> '''' \<and> endkey \<le> Key obj)")
    case True
    then show ?thesis using Cons.prems by (auto split: if_splits)
  next
    case False
    obtain sent' lk' ex' where rest: "iterate_page endkey (Key obj) objs = (sent', lk', ex')"
      by (cases "iterate_page endkey (Key obj) objs")
    have eq: "sent = obj # sent'" "lk' = lk" "ex' = ex"
      using Cons.prems(1) False rest by (auto split: if_splits)
    have "ordered_after (Key obj) (map (Send \<circ> Some) sent' @ evs)"
      using Cons.IH [OF rest Cons.prems(2) [folded eq(2)]] .
    then show ?thesis
      unfolding eq using False by (auto simp: not_le comp_def)
  qed
qed

lemma iterate_page_below_end:
  "iterate_page endkey lastkey objs = (sent, lk, ex) \<Longrightarrow> endkey \<noteq> '''' \<Longrightarrow>
   obj \<in> set sent \<Longrightarrow> Key obj < endkey"
proof (induction objs arbitrary: lastkey sent lk ex)
  case Nil
  then show ?case by simp
next
  case (Cons x objs)
  show ?case
  proof (cases "(Key x \<noteq> '''' \<and> Key x \<le> lastkey) \<or> (endkey \<noteq> '''' \<and> endkey \<le> Key x)")
    case True
    then show ?thesis using Cons.prems by (auto split: if_splits)
  next
    case False
    obtain sent' lk' ex' where rest: "iterate_page endkey (Key x) objs = (sent', lk', ex')"
      by (cases "iterate_page endkey (Key x) objs")
    have eq: "sent = x # sent'" "lk' = lk"
      using Cons.prems(1) False rest by (auto split: if_splits)
    show ?thesis
      using Cons.IH [OF rest Cons.prems(2)] Cons.prems(2,3) False unfolding eq
      by (auto simp: not_le)
  qed
qed

lemma producer_ordered:
  "ordered_after lastkey (fst (producer fuel store s endkey lastkey objs))"
proof (induction fuel store s endkey lastkey objs rule: producer.induct)
  case (1 fuel store s endkey lastkey)
  then show ?case by simp
next
  case (2 store s endkey lastkey obj objs)
  then show ?case by simp
next
  case (3 fuel store s endkey lastkey obj objs)
  obtain sent lk ex where page: "iterate_page endkey lastkey (obj # objs) = (sent, lk, ex)"
    by (cases "iterate_page endkey lastkey (obj # objs)")
  note then_ok = iterate_page_then [OF page]
  show ?case
  proof (cases ex)
    case PageDone
    obtain r s' where ans: "store s '''' lk MaxResults = (r, s')"
      by (cases "store s '''' lk MaxResults")
    show ?thesis
    proof (cases r)
      case (Inl err)
      then show ?thesis
        using page PageDone ans then_ok [of "[Request lk, Send None]"]
        by (simp del: iterate_page.simps)
    next
      case (Inr objs')
      obtain evs e where run: "producer fuel store s' endkey lk objs' = (evs, e)"
        by (cases "producer fuel store s' endkey lk objs'")
      have "ordered_after lk evs"
        using "3.IH" [OF page [symmetric] refl PageDone ans [symmetric] Inr] run by simp
      then show ?thesis
        using page PageDone ans Inr run then_ok [of "Request lk # evs"]
        by (simp del: iterate_page.simps)
    qed
  next
    case BreakEnd
    then show ?thesis using page then_ok [of "[]"] by (simp del: iterate_page.simps)
  next
    case FatalOrder
    then show ?thesis using page then_ok [of "[]"] by (simp del: iterate_page.simps)
  qed
qed

lemma iterate_page_append:
  "iterate_page endkey lastkey pre = (pre, lk, PageDone) \<Longrightarrow>
   iterate_page endkey lastkey (pre @ rest) =
     (case iterate_page endkey lk rest of (sent, lk', ex) \<Rightarrow> (pre @ sent, lk', ex))"
proof (induction pre arbitrary: lastkey)
  case Nil
  then show ?case by simp
next
  case (Cons x pre)
  have pass: "\<not> (Key x \<noteq> '''' \<and> Key x \<le> lastkey)" "\<not> (endkey \<noteq> '''' \<and> endkey \<le> Key x)"
    using Cons.prems by (auto split: if_splits)
  have tail: "iterate_page endkey (Key x) pre = (pre, lk, PageDone)"
    using Cons.prems pass by (auto split: prod.splits)
  show ?case
    using Cons.IH [OF tail] pass by (auto split: prod.splits)
qed

lemma producer_page:
  "objs \<noteq> [] \<Longrightarrow> iterate_page endkey lastkey objs = (sent, lk, ex) \<Longrightarrow> ex \<noteq> PageDone \<Longrightarrow>
   producer (Suc fuel) store s endkey lastkey objs =
     (map (Send \<circ> Some) sent, if ex = FatalOrder then Fatal else Closed EndReached)"
  by (cases objs; cases ex) (simp_all del: iterate_page.simps)

lemma producer_fatal_at:
  assumes "iterate_page endkey lastkey pre = (pre, lk, PageDone)"
    and "Key obj \<noteq> ''''" and "Key obj \<le> lk"
  shows "producer (Suc fuel) store s endkey lastkey (pre @ obj # post) =
           (map (Send \<circ> Some) pre, Fatal)"
proof -
  have "iterate_page endkey lastkey (pre @ obj # post) = (pre, lk, FatalOrder)"
    using iterate_page_append [OF assms(1), of "obj # post"] assms(2,3) by simp
  from producer_page [OF _ this] show ?thesis by simp
qed

lemma producer_end_at:
  assumes "iterate_page endkey lastkey pre = (pre, lk, PageDone)"
    and "\<not> (Key obj \<noteq> '''' \<and> Key obj \<le> lk)" and "endkey \<noteq> ''''" and "endkey \<le> Key obj"
  shows "producer (Suc fuel) store s endkey lastkey (pre @ obj # post) =
           (map (Send \<circ> Some) pre, Closed EndReached)"
proof -
  have "iterate_page endkey lastkey (pre @ obj # post) = (pre, lk, BreakEnd)"
    using iterate_page_append [OF assms(1), of "obj # post"] assms(2,3,4) by auto
  from producer_page [OF _ this] show ?thesis by simp
qed

lemma producer_below_end:
  "endkey \<noteq> '''' \<Longrightarrow> Send (Some x) \<in> set (fst (producer fuel store s endkey lastkey objs)) \<Longrightarrow>
   Key x < endkey"
proof (induction fuel store s endkey lastkey objs rule: producer.induct)
  case (1 fuel store s endkey lastkey)
  then show ?case by simp
next
  case (2 store s endkey lastkey obj objs)
  then show ?case by simp
next
  case (3 fuel store s endkey lastkey obj objs)
  obtain sent lk ex where page: "iterate_page endkey lastkey (obj # objs) = (sent, lk, ex)"
    by (cases "iterate_page endkey lastkey (obj # objs)")
  have below: "x \<in> set sent \<Longrightarrow> Key x < endkey"
    using iterate_page_below_end [OF page "3.prems"(1)] .
  show ?case
  proof (cases ex)
    case PageDone
    obtain r s' where ans: "store s '''' lk MaxResults = (r, s')"
      by (cases "store s '''' lk MaxResults")
    show ?thesis
    proof (cases r)
      case (Inl err)
      then show ?thesis
        using page PageDone ans below "3.prems"(2) by (auto simp del: iterate_page.simps)
    next
      case (Inr objs')
      obtain evs e where run: "producer fuel store s' endkey lk objs' = (evs, e)"
        by (cases "producer fuel store s' endkey lk objs'")
      have "Send (Some x) \<in> set evs \<Longrightarrow> Key x < endkey"
        using "3.IH" [OF page [symmetric] refl PageDone ans [symmetric] Inr "3.prems"(1)] run
        by simp
      then show ?thesis
        using page PageDone ans Inr run below "3.prems"(2)
        by (auto simp del: iterate_page.simps)
    qed
  next
    case BreakEnd
    then show ?thesis using page below "3.prems"(2) by (auto simp del: iterate_page.simps)
  next
    case FatalOrder
    then show ?thesis using page below "3.prems"(2) by (auto simp del: iterate_page.simps)
  qed
qed

lemma sends_no_nil: "Send None \<notin> set (map (Send \<circ> Some) sent)"
  by auto

lemma butlast_sends:
  "Send None \<notin> set (butlast evs) \<Longrightarrow>
   Send None \<notin> set (butlast (map (Send \<circ> Some) sent @ Request marker # evs))"
  by (auto simp: butlast_append dest: in_set_butlastD)

lemma producer_nil:
  "producer fuel store s endkey lastkey objs = (evs, e) \<Longrightarrow>
   Send None \<notin> set (butlast evs) \<and>
   ((evs \<noteq> [] \<and> last evs = Send None) \<longleftrightarrow> (\<exists>err. e = Closed (ListFailed err)))"
proof (induction fuel store s endkey lastkey objs arbitrary: evs e rule: producer.induct)
  case (1 fuel store s endkey lastkey)
  then show ?case by auto
next
  case (2 store s endkey lastkey obj objs)
  then show ?case by auto
next
  case (3 fuel store s endkey lastkey obj objs)
  obtain sent lk ex where page: "iterate_page endkey lastkey (obj # objs) = (sent, lk, ex)"
    by (cases "iterate_page endkey lastkey (obj # objs)")
  have nolast: "sent \<noteq> [] \<Longrightarrow> last (map (Send \<circ> Some) sent) \<noteq> Send None"
    by (simp add: last_map)
  show ?case
  proof (cases ex)
    case PageDone
    obtain r s' where ans: "store s '''' lk MaxResults = (r, s')"
      by (cases "store s '''' lk MaxResults")
    show ?thesis
    proof (cases r)
      case (Inl err)
      then have "evs = map (Send \<circ> Some) sent @ [Request lk, Send None]"
        "e = Closed (ListFailed err)"
        using "3.prems" page PageDone ans by (simp_all del: iterate_page.simps)
      then show ?thesis by (auto simp: butlast_append)
    next
      case (Inr objs')
      obtain evs' e' where run: "producer fuel store s' endkey lk objs' = (evs', e')"
        by (cases "producer fuel store s' endkey lk objs'")
      have ih: "Send None \<notin> set (butlast evs')"
        "(evs' \<noteq> [] \<and> last evs' = Send None) \<longleftrightarrow> (\<exists>err. e' = Closed (ListFailed err))"
        using "3.IH" [OF page [symmetric] refl PageDone ans [symmetric] Inr run] by simp_all
      have eq: "evs = map (Send \<circ> Some) sent @ Request lk # evs'" "e = e'"
        using "3.prems" page PageDone ans Inr run by (simp_all del: iterate_page.simps)
      have "Send None \<notin> set (butlast evs)"
        unfolding eq using ih(1) by (rule butlast_sends)
      moreover have "last evs = (if evs' = [] then Request lk else last evs')"
        unfolding eq by simp
      ultimately show ?thesis using ih(2) eq by auto
    qed
  next
    case BreakEnd
    then have "evs = map (Send \<circ> Some) sent" "e = Closed EndReached"
      using "3.prems" page by (simp_all del: iterate_page.simps)
    then show ?thesis using nolast by (auto dest: in_set_butlastD)
  next
    case FatalOrder
    then have "evs = map (Send \<circ> Some) sent" "e = Fatal"
      using "3.prems" page by (simp_all del: iterate_page.simps)
    then show ?thesis using nolast by (auto dest: in_set_butlastD)
  qed
qed

lemma ordered_after_request:
  "ordered_after lastkey (evs @ Request m # Send (Some obj) # evs') \<Longrightarrow>
   Key obj = '''' \<or> m < Key obj"
proof (induction evs arbitrary: lastkey)
  case Nil
  then show ?case by auto
next
  case (Cons ev evs)
  show ?case
  proof (cases ev)
    case (Request m')
    then show ?thesis using Cons by auto
  next
    case (Send v)
    then show ?thesis using Cons by (cases v) auto
  qed
qed

lemma producer_list_failed:
  assumes "objs \<noteq> []" and "iterate_page endkey lastkey objs = (sent, lk, PageDone)"
    and "store s '''' lk MaxResults = (Inl err, s')"
  shows "producer (Suc fuel) store s endkey lastkey objs =
           (map (Send \<circ> Some) sent @ [Request lk, Send None], Closed (ListFailed err))"
  using assms by (cases objs) (simp_all del: iterate_page.simps)

lemma producer_next_page:
  assumes "objs \<noteq> []" and "iterate_page endkey lastkey objs = (sent, lk, PageDone)"
    and "store s '''' lk MaxResults = (Inr objs', s')"
  shows "producer (Suc fuel) store s endkey lastkey objs =
           (map (Send \<circ> Some) sent @ Request lk # fst (producer fuel store s' endkey lk objs'),
            snd (producer fuel store s' endkey lk objs'))"
  using assms by (cases objs) (simp_all split: prod.splits del: iterate_page.simps)

lemma iterate_page_accepts:
  assumes "iterate_page endkey lastkey pre = (pre, lk, PageDone)"
    and "Key obj = '''' \<or> lk < Key obj" and "endkey = '''' \<or> Key obj < endkey"
  shows "iterate_page endkey lastkey (pre @ obj # post) =
           (case iterate_page endkey (Key obj) post of
              (sent, lk', ex) \<Rightarrow> (pre @ obj # sent, lk', ex))"
  using iterate_page_append [OF assms(1), of "obj # post"] assms(2,3)
  by (auto simp: not_le split: prod.splits)

lemma producer_starts:
  assumes "objs \<noteq> []" and "iterate_page endkey lastkey objs = (sent, lk, ex)"
  shows "take (length sent) (fst (producer (Suc fuel) store s endkey lastkey objs)) =
           map (Send \<circ> Some) sent"
proof (cases ex)
  case PageDone
  obtain r s' where ans: "store s '''' lk MaxResults = (r, s')"
    by (cases "store s '''' lk MaxResults")
  show ?thesis
  proof (cases r)
    case (Inl err)
    then have "store s '''' lk MaxResults = (Inl err, s')" using ans by simp
    from producer_list_failed [where store = store and s = s and fuel = fuel,
        OF assms(1) assms(2) [unfolded PageDone] this]
    show ?thesis by simp
  next
    case (Inr objs')
    then have "store s '''' lk MaxResults = (Inr objs', s')" using ans by simp
    from producer_next_page [where store = store and s = s and fuel = fuel,
        OF assms(1) assms(2) [unfolded PageDone] this]
    show ?thesis by simp
  qed
next
  case BreakEnd
  then show ?thesis
    using producer_page [where store = store and s = s and fuel = fuel, OF assms] by simp
next
  case FatalOrder
  then show ?thesis
    using producer_page [where store = store and s = s and fuel = fuel, OF assms] by simp
qed

lemma producer_accepts:
  assumes "iterate_page endkey lastkey pre = (pre, lk, PageDone)"
    and "Key obj = '''' \<or> lk < Key obj" and "endkey = '''' \<or> Key obj < endkey"
  shows "take (Suc (length pre)) (fst (producer (Suc fuel) store s endkey lastkey (pre @ obj # post))) =
           map (Send \<circ> Some) (pre @ [obj])"
proof -
  obtain sent lk' ex where rest: "iterate_page endkey (Key obj) post = (sent, lk', ex)"
    by (cases "iterate_page endkey (Key obj) post")
  have page: "iterate_page endkey lastkey (pre @ obj # post) = (pre @ obj # sent, lk', ex)"
    using iterate_page_accepts [OF assms, of post] rest by simp
  have "take (length (pre @ obj # sent))
          (fst (producer (Suc fuel) store s endkey lastkey (pre @ obj # post))) =
        map (Send \<circ> Some) (pre @ obj # sent)"
    using producer_starts [where store = store and s = s and fuel = fuel, OF _ page] by simp
  then have "take (Suc (length pre)) (take (length (pre @ obj # sent))
          (fst (producer (Suc fuel) store s endkey lastkey (pre @ obj # post)))) =
        take (Suc (length pre)) (map (Send \<circ> Some) (pre @ obj # sent))"
    by simp
  then show ?thesis by (simp add: min_def)
qed

lemma producer_failed_request:
  "producer fuel store s endkey lastkey objs = (evs, Closed (ListFailed err)) \<Longrightarrow>
   \<exists>s1 s2 m evs'. store s1 '''' m MaxResults = (Inl err, s2) \<and> evs = evs' @ [Request m, Send None]"
proof (induction fuel store s endkey lastkey objs arbitrary: evs rule: producer.induct)
  case (1 fuel store s endkey lastkey)
  then show ?case by simp
next
  case (2 store s endkey lastkey obj objs)
  then show ?case by simp
next
  case (3 fuel store s endkey lastkey obj objs)
  obtain sent lk ex where page: "iterate_page endkey lastkey (obj # objs) = (sent, lk, ex)"
    by (cases "iterate_page endkey lastkey (obj # objs)")
  show ?case
  proof (cases ex)
    case PageDone
    obtain r s' where ans: "store s '''' lk MaxResults = (r, s')"
      by (cases "store s '''' lk MaxResults")
    show ?thesis
    proof (cases r)
      case (Inl err')
      then have "evs = map (Send \<circ> Some) sent @ [Request lk, Send None]" "err' = err"
        using "3.prems" page PageDone ans by (simp_all del: iterate_page.simps)
      then show ?thesis using ans Inl by blast
    next
      case (Inr objs')
      obtain evs' e' where run: "producer fuel store s' endkey lk objs' = (evs', e')"
        by (cases "producer fuel store s' endkey lk objs'")
      have eq: "evs = map (Send \<circ> Some) sent @ Request lk # evs'" "e' = Closed (ListFailed err)"
        using "3.prems" page PageDone ans Inr run by (simp_all del: iterate_page.simps)
      from "3.IH" [OF page [symmetric] refl PageDone ans [symmetric] Inr run [unfolded eq(2)]]
      obtain s1 s2 m evs'' where
        "store s1 '''' m MaxResults = (Inl err, s2)" "evs' = evs'' @ [Request m, Send None]"
        by blast
      then have "store s1 '''' m MaxResults = (Inl err, s2) \<and>
          evs = (map (Send \<circ> Some) sent @ Request lk # evs'') @ [Request m, Send None]"
        using eq(1) by simp
      then show ?thesis by blast
    qed
  next
    case BreakEnd
    then show ?thesis using "3.prems" page by (simp del: iterate_page.simps)
  next
    case FatalOrder
    then show ?thesis using "3.prems" page by (simp del: iterate_page.simps)
  qed
qed

lemma ordered_after_successively:
  "ordered_after lastkey evs \<Longrightarrow>
   successively (\<lambda>a b. b = '''' \<or> a < b) (lastkey # sent_keys evs)"
proof (induction evs arbitrary: lastkey)
  case Nil
  then show ?case by simp
next
  case (Cons ev evs)
  show ?case
  proof (cases ev)
    case (Request m)
    then show ?thesis using Cons by simp
  next
    case (Send v)
    show ?thesis
    proof (cases v)
      case None
      then show ?thesis using Send Cons by simp
    next
      case (Some x)
      then show ?thesis using Send Cons by auto
    qed
  qed
qed

lemma ordered_after_increasing:
  assumes "ordered_after lastkey evs" and "sent_keys evs = ks @ seg @ ks'"
    and "'''' \<notin> set seg"
  shows "sorted_wrt (<) seg"
proof -
  have "successively (\<lambda>a b. b = '''' \<or> a < b) ((lastkey # ks) @ seg @ ks')"
    using ordered_after_successively [OF assms(1)] assms(2) by simp
  then have "successively (\<lambda>a b. b = '''' \<or> a < b) seg"
    by (simp only: successively_append_iff)
  then have "successively (<) seg"
    by (rule successively_mono) (use assms(3) in auto)
  then show ?thesis
    by (simp add: successively_conv_sorted_wrt)
qed


text \<open>
  Claim C2, as the code has it. In every stream that \<^verbatim>\<open>Iterate\<close> produces, whatever the
  fuel: each request after the first uses the last key sent as its marker, and the
  first key of its page, when it is not empty, is strictly above that marker; each key
  sent that is not empty is strictly above the key sent just before it (the empty
  string before the first), within a page and across pages, so the keys sent are
  strictly increasing along every stretch of them that has no empty key. The keys of
  the first page are compared with the empty string, not with the marker of the caller.
  A record whose key is not empty and not above the key sent just before it ends the
  process (\<open>Fatal\<close>) before it is sent: the records of the page before it are sent, and
  nothing after. Every other record below the end key is sent, a record with the empty
  key among them, and the rest of the page is compared from its key: after an empty key
  from the empty string again.
\<close>

theorem Iterate_order_enforced:
  "(Iterate fuel store s marker endkey = Inr (tr, e) \<longrightarrow>
      tr = Request marker # tl tr \<and> ordered_after '''' (tl tr) \<and>
      (\<forall>evs m x evs'. tl tr = evs @ Request m # Send (Some x) # evs' \<and> Key x \<noteq> '''' \<longrightarrow>
         m < Key x) \<and>
      (\<forall>ks seg ks'. sent_keys (tl tr) = ks @ seg @ ks' \<and> '''' \<notin> set seg \<longrightarrow>
         sorted_wrt (<) seg)) \<and>
   (iterate_page endkey lastkey pre = (pre, lk, PageDone) \<and> Key obj \<noteq> '''' \<and> Key obj \<le> lk \<longrightarrow>
      producer (Suc fuel) store s endkey lastkey (pre @ obj # post) =
        (map (Send \<circ> Some) pre, Fatal)) \<and>
   (iterate_page endkey lastkey' pre' = (pre', lk', PageDone) \<and> (Key y = '''' \<or> lk' < Key y) \<and>
    (endkey = '''' \<or> Key y < endkey) \<longrightarrow>
      take (Suc (length pre'))
        (fst (producer (Suc fuel) store s endkey lastkey' (pre' @ y # post'))) =
        map (Send \<circ> Some) (pre' @ [y]) \<and>
      iterate_page endkey lastkey' (pre' @ y # post') =
        (case iterate_page endkey (Key y) post' of
           (sent, lk'', ex) \<Rightarrow> (pre' @ y # sent, lk'', ex)))"
proof (intro conjI impI allI)
  assume run: "Iterate fuel store s marker endkey = Inr (tr, e)"
  then obtain objs s' where first: "store s '''' marker MaxResults = (Inr objs, s')"
    by (auto simp: Iterate_def split: prod.splits sum.splits)
  have tr: "tr = Request marker # fst (producer fuel store s' endkey '''' objs)"
    using run first by (auto simp: Iterate_def split: prod.splits)
  have ord: "ordered_after '''' (tl tr)"
    using producer_ordered [of "''''" fuel store s' endkey objs] tr by simp
  show "tr = Request marker # tl tr" using tr by simp
  show "ordered_after '''' (tl tr)" by (rule ord)
  {
    fix evs m x evs'
    assume "tl tr = evs @ Request m # Send (Some x) # evs' \<and> Key x \<noteq> ''''"
    then show "m < Key x"
      using ord ordered_after_request [of "''''" evs m x evs'] by auto
  }
  fix ks seg ks'
  assume "sent_keys (tl tr) = ks @ seg @ ks' \<and> '''' \<notin> set seg"
  then show "sorted_wrt (<) seg"
    using ordered_after_increasing [OF ord, of ks seg ks'] by blast
next
  assume "iterate_page endkey lastkey pre = (pre, lk, PageDone) \<and> Key obj \<noteq> '''' \<and> Key obj \<le> lk"
  then show "producer (Suc fuel) store s endkey lastkey (pre @ obj # post) =
      (map (Send \<circ> Some) pre, Fatal)"
    by (simp add: producer_fatal_at)
next
  assume a: "iterate_page endkey lastkey' pre' = (pre', lk', PageDone) \<and>
    (Key y = '''' \<or> lk' < Key y) \<and> (endkey = '''' \<or> Key y < endkey)"
  then show "take (Suc (length pre'))
        (fst (producer (Suc fuel) store s endkey lastkey' (pre' @ y # post'))) =
        map (Send \<circ> Some) (pre' @ [y])"
    using producer_accepts [where store = store and s = s and fuel = fuel and endkey = endkey
        and lastkey = lastkey' and pre = pre' and lk = lk' and obj = y and post = post']
    by blast
  from a show "iterate_page endkey lastkey' (pre' @ y # post') =
        (case iterate_page endkey (Key y) post' of
           (sent, lk'', ex) \<Rightarrow> (pre' @ y # sent, lk'', ex))"
    using iterate_page_accepts [of endkey lastkey' pre' lk' y post'] by blast
qed

theorem Iterate_order_enforced_witness:
  "Iterate 3 (table_store [('''', [\<lparr>Key = ''a'', Size = 1\<rparr>, \<lparr>Key = ''b'', Size = 1\<rparr>]),
        (''b'', [\<lparr>Key = ''c'', Size = 1\<rparr>, \<lparr>Key = ''b'', Size = 1\<rparr>])] []) () '''' '''' =
     Inr ([Request '''', Send (Some \<lparr>Key = ''a'', Size = 1\<rparr>), Send (Some \<lparr>Key = ''b'', Size = 1\<rparr>),
           Request ''b'', Send (Some \<lparr>Key = ''c'', Size = 1\<rparr>)], Fatal) \<and>
   ordered_after '''' [Send (Some \<lparr>Key = ''a'', Size = 1\<rparr>), Send (Some \<lparr>Key = ''b'', Size = 1\<rparr>),
           Request ''b'', Send (Some \<lparr>Key = ''c'', Size = 1\<rparr>)] \<and>
   ''b'' < Key \<lparr>Key = ''c'', Size = 1\<rparr> \<and>
   sent_keys [Send (Some \<lparr>Key = ''a'', Size = 1\<rparr>), Send (Some \<lparr>Key = ''b'', Size = 1\<rparr>),
           Request ''b'', Send (Some \<lparr>Key = ''c'', Size = 1\<rparr>)] = [''a'', ''b'', ''c''] \<and>
   sorted_wrt (<) [''a'', ''b'', ''c''] \<and>
   iterate_page '''' ''b'' [\<lparr>Key = ''c'', Size = 1\<rparr>] = ([\<lparr>Key = ''c'', Size = 1\<rparr>], ''c'', PageDone) \<and>
   producer (Suc 3) (table_store [('''', [\<lparr>Key = ''a'', Size = 1\<rparr>, \<lparr>Key = ''b'', Size = 1\<rparr>]),
        (''b'', [\<lparr>Key = ''c'', Size = 1\<rparr>, \<lparr>Key = ''b'', Size = 1\<rparr>])] []) () '''' ''b''
       ([\<lparr>Key = ''c'', Size = 1\<rparr>] @ \<lparr>Key = ''b'', Size = 1\<rparr> # []) =
     (map (Send \<circ> Some) [\<lparr>Key = ''c'', Size = 1\<rparr>], Fatal) \<and>
   iterate_page '''' ''a'' [\<lparr>Key = ''b'', Size = 1\<rparr>] = ([\<lparr>Key = ''b'', Size = 1\<rparr>], ''b'', PageDone) \<and>
   iterate_page '''' ''a''
       ([\<lparr>Key = ''b'', Size = 1\<rparr>] @ \<lparr>Key = '''', Size = 1\<rparr> # [\<lparr>Key = ''a'', Size = 1\<rparr>]) =
     ([\<lparr>Key = ''b'', Size = 1\<rparr>, \<lparr>Key = '''', Size = 1\<rparr>, \<lparr>Key = ''a'', Size = 1\<rparr>], ''a'', PageDone)"
  using Iterate_order_enforced [where fuel = 3
      and store = "table_store [('''', [\<lparr>Key = ''a'', Size = 1\<rparr>, \<lparr>Key = ''b'', Size = 1\<rparr>]),
        (''b'', [\<lparr>Key = ''c'', Size = 1\<rparr>, \<lparr>Key = ''b'', Size = 1\<rparr>])] []"
      and s = "()" and marker = "''''" and endkey = "''''"
      and tr = "[Request '''', Send (Some \<lparr>Key = ''a'', Size = 1\<rparr>),
           Send (Some \<lparr>Key = ''b'', Size = 1\<rparr>), Request ''b'', Send (Some \<lparr>Key = ''c'', Size = 1\<rparr>)]"
      and e = Fatal and lastkey = "''b''" and pre = "[\<lparr>Key = ''c'', Size = 1\<rparr>]" and lk = "''c''"
      and obj = "\<lparr>Key = ''b'', Size = 1\<rparr>" and post = "[]"
      and lastkey' = "''a''" and pre' = "[\<lparr>Key = ''b'', Size = 1\<rparr>]" and lk' = "''b''"
      and y = "\<lparr>Key = '''', Size = 1\<rparr>" and post' = "[\<lparr>Key = ''a'', Size = 1\<rparr>]"]
  by (simp add: Iterate_def table_store_def numeral_nat)

text \<open>
  Claim C2 as stated fails in two ways, shown by one run. \<^verbatim>\<open>Iterate\<close> is called with the
  marker \<open>''m''\<close>; the store answers that request with the key \<open>''b''\<close>, and the next
  request, with the marker \<open>''b''\<close>, with the empty key and then \<open>''a''\<close>. All three
  records are sent and the channel is closed at the empty page, with no abort: the
  first key of the first page is not above the marker of the caller, and \<open>''a''\<close> is
  sent after \<open>''b''\<close>, the empty key between them.
\<close>

theorem Iterate_order_counterexample:
  "Iterate 3 (table_store [(''m'', [\<lparr>Key = ''b'', Size = 1\<rparr>]),
        (''b'', [\<lparr>Key = '''', Size = 1\<rparr>, \<lparr>Key = ''a'', Size = 1\<rparr>])] []) () ''m'' '''' =
     Inr ([Request ''m'', Send (Some \<lparr>Key = ''b'', Size = 1\<rparr>), Request ''b'',
           Send (Some \<lparr>Key = '''', Size = 1\<rparr>), Send (Some \<lparr>Key = ''a'', Size = 1\<rparr>),
           Request ''a''], Closed EmptyPage) \<and>
   \<not> ''m'' < Key \<lparr>Key = ''b'', Size = 1\<rparr> \<and>
   \<not> Key \<lparr>Key = ''b'', Size = 1\<rparr> < Key \<lparr>Key = ''a'', Size = 1\<rparr>"
  by (simp add: Iterate_def table_store_def numeral_nat)

text \<open>
  Claim C8. With an end key that is not empty, every record that \<^verbatim>\<open>Iterate\<close> sends has a
  key strictly below the end key; nil is sent at most once, as the last value, and
  exactly when the channel is closed after a failed listing request, which is then the
  last request of the stream, answered by the store with that error. The goroutine
  stops at the first record of a page whose key reaches the end key, sending the
  records before it and requesting no further page; it stops at an empty page; and when
  the request after a page fails, it sends the records of the page, then nil once, and
  closes the channel. When that request succeeds it goes on with the page received.
\<close>

theorem Iterate_end_bound:
  assumes "endkey \<noteq> ''''"
  shows "(Iterate fuel store s marker endkey = Inr (tr, e) \<longrightarrow>
            (\<forall>x. Send (Some x) \<in> set tr \<longrightarrow> Key x < endkey) \<and>
            Send None \<notin> set (butlast tr) \<and>
            (last tr = Send None \<longleftrightarrow> (\<exists>err. e = Closed (ListFailed err))) \<and>
            (\<forall>err. e = Closed (ListFailed err) \<longrightarrow>
               (\<exists>s1 s2 m evs. store s1 '''' m MaxResults = (Inl err, s2) \<and>
                  tr = evs @ [Request m, Send None]))) \<and>
         (iterate_page endkey lastkey pre = (pre, lk, PageDone) \<and>
          \<not> (Key obj \<noteq> '''' \<and> Key obj \<le> lk) \<and> endkey \<le> Key obj \<longrightarrow>
            producer (Suc fuel) store s endkey lastkey (pre @ obj # post) =
              (map (Send \<circ> Some) pre, Closed EndReached)) \<and>
         producer fuel store s endkey lastkey [] = ([], Closed EmptyPage) \<and>
         (objs \<noteq> [] \<and> iterate_page endkey lastkey' objs = (sent, lk', PageDone) \<and>
          store s' '''' lk' MaxResults = (Inl err', s'') \<longrightarrow>
            producer (Suc fuel) store s' endkey lastkey' objs =
              (map (Send \<circ> Some) sent @ [Request lk', Send None], Closed (ListFailed err'))) \<and>
         (objsb \<noteq> [] \<and> iterate_page endkey lastkeyb objsb = (sentb, lkb, PageDone) \<and>
          store sb '''' lkb MaxResults = (Inr objsc, sb') \<longrightarrow>
            producer (Suc fuel) store sb endkey lastkeyb objsb =
              (map (Send \<circ> Some) sentb @ Request lkb #
                 fst (producer fuel store sb' endkey lkb objsc),
               snd (producer fuel store sb' endkey lkb objsc)))"
proof (intro conjI impI allI)
  assume run: "Iterate fuel store s marker endkey = Inr (tr, e)"
  then obtain objs0 s0 where first: "store s '''' marker MaxResults = (Inr objs0, s0)"
    by (auto simp: Iterate_def split: prod.splits sum.splits)
  obtain evs e' where prod: "producer fuel store s0 endkey '''' objs0 = (evs, e')"
    by (cases "producer fuel store s0 endkey '''' objs0")
  have tr: "tr = Request marker # evs" and e: "e = e'"
    using run first prod by (auto simp: Iterate_def)
  note nil = producer_nil [OF prod]
  show "Send None \<notin> set (butlast tr)"
    using nil unfolding tr by simp
  show "last tr = Send None \<longleftrightarrow> (\<exists>err. e = Closed (ListFailed err))"
    using nil unfolding tr e by auto
  {
    fix x assume "Send (Some x) \<in> set tr"
    then have "Send (Some x) \<in> set (fst (producer fuel store s0 endkey '''' objs0))"
      using prod tr by simp
    then show "Key x < endkey"
      by (rule producer_below_end [OF assms])
  }
  fix err assume "e = Closed (ListFailed err)"
  then have "producer fuel store s0 endkey '''' objs0 = (evs, Closed (ListFailed err))"
    using prod e by simp
  from producer_failed_request [OF this] obtain s1 s2 m evs'' where
    f: "store s1 '''' m MaxResults = (Inl err, s2)" "evs = evs'' @ [Request m, Send None]"
    by blast
  then have "store s1 '''' m MaxResults = (Inl err, s2) \<and>
      tr = (Request marker # evs'') @ [Request m, Send None]"
    using tr by simp
  then show "\<exists>s1 s2 m evs. store s1 '''' m MaxResults = (Inl err, s2) \<and>
      tr = evs @ [Request m, Send None]"
    by blast
next
  assume "iterate_page endkey lastkey pre = (pre, lk, PageDone) \<and>
          \<not> (Key obj \<noteq> '''' \<and> Key obj \<le> lk) \<and> endkey \<le> Key obj"
  then show "producer (Suc fuel) store s endkey lastkey (pre @ obj # post) =
              (map (Send \<circ> Some) pre, Closed EndReached)"
    using assms by (simp add: producer_end_at)
next
  show "producer fuel store s endkey lastkey [] = ([], Closed EmptyPage)" by simp
next
  assume "objs \<noteq> [] \<and> iterate_page endkey lastkey' objs = (sent, lk', PageDone) \<and>
          store s' '''' lk' MaxResults = (Inl err', s'')"
  then show "producer (Suc fuel) store s' endkey lastkey' objs =
      (map (Send \<circ> Some) sent @ [Request lk', Send None], Closed (ListFailed err'))"
    using producer_list_failed [where store = store and s = s' and fuel = fuel
        and objs = objs and endkey = endkey and lastkey = lastkey' and sent = sent
        and lk = lk' and err = err' and s' = s'']
    by blast
next
  assume "objsb \<noteq> [] \<and> iterate_page endkey lastkeyb objsb = (sentb, lkb, PageDone) \<and>
          store sb '''' lkb MaxResults = (Inr objsc, sb')"
  then show "producer (Suc fuel) store sb endkey lastkeyb objsb =
      (map (Send \<circ> Some) sentb @ Request lkb # fst (producer fuel store sb' endkey lkb objsc),
       snd (producer fuel store sb' endkey lkb objsc))"
    using producer_next_page [where store = store and s = sb and fuel = fuel
        and objs = objsb and endkey = endkey and lastkey = lastkeyb and sent = sentb
        and lk = lkb and objs' = objsc and s' = sb']
    by blast
qed

theorem Iterate_end_bound_witness:
  "''d'' \<noteq> '''' \<and>
   Iterate 3 (table_store [('''', [\<lparr>Key = ''a'', Size = 1\<rparr>])] [''a'']) () '''' ''d'' =
     Inr ([Request '''', Send (Some \<lparr>Key = ''a'', Size = 1\<rparr>), Request ''a'', Send None],
          Closed (ListFailed (Err 1))) \<and>
   iterate_page ''d'' ''b'' [\<lparr>Key = ''c'', Size = 1\<rparr>] = ([\<lparr>Key = ''c'', Size = 1\<rparr>], ''c'', PageDone) \<and>
   producer (Suc 3) (table_store [('''', [\<lparr>Key = ''a'', Size = 1\<rparr>])] [''a'']) () ''d'' ''b''
       ([\<lparr>Key = ''c'', Size = 1\<rparr>] @ \<lparr>Key = ''z'', Size = 1\<rparr> # [\<lparr>Key = ''zz'', Size = 1\<rparr>]) =
     (map (Send \<circ> Some) [\<lparr>Key = ''c'', Size = 1\<rparr>], Closed EndReached) \<and>
   table_store [('''', [\<lparr>Key = ''a'', Size = 1\<rparr>])] [''a''] () '''' ''a'' MaxResults =
     (Inl (Err 1), ()) \<and>
   producer (Suc 3) (table_store [('''', [\<lparr>Key = ''a'', Size = 1\<rparr>])] [''a'']) () ''d'' ''''
       [\<lparr>Key = ''a'', Size = 1\<rparr>] =
     (map (Send \<circ> Some) [\<lparr>Key = ''a'', Size = 1\<rparr>] @ [Request ''a'', Send None],
      Closed (ListFailed (Err 1))) \<and>
   table_store [('''', [\<lparr>Key = ''a'', Size = 1\<rparr>])] [''a''] () '''' ''c'' MaxResults =
     (Inr [], ()) \<and>
   producer (Suc 3) (table_store [('''', [\<lparr>Key = ''a'', Size = 1\<rparr>])] [''a'']) () ''d'' ''b''
       [\<lparr>Key = ''c'', Size = 1\<rparr>] =
     ([Send (Some \<lparr>Key = ''c'', Size = 1\<rparr>), Request ''c''], Closed EmptyPage)"
  using Iterate_end_bound [where endkey = "''d''" and fuel = 3
      and store = "table_store [('''', [\<lparr>Key = ''a'', Size = 1\<rparr>])] [''a'']"
      and s = "()" and marker = "''''"
      and tr = "[Request '''', Send (Some \<lparr>Key = ''a'', Size = 1\<rparr>), Request ''a'', Send None]"
      and e = "Closed (ListFailed (Err 1))"
      and lastkey = "''b''" and pre = "[\<lparr>Key = ''c'', Size = 1\<rparr>]" and lk = "''c''"
      and obj = "\<lparr>Key = ''z'', Size = 1\<rparr>" and post = "[\<lparr>Key = ''zz'', Size = 1\<rparr>]"
      and objs = "[\<lparr>Key = ''a'', Size = 1\<rparr>]" and lastkey' = "''''"
      and sent = "[\<lparr>Key = ''a'', Size = 1\<rparr>]" and lk' = "''a''" and s' = "()" and err' = "Err 1"
      and s'' = "()"
      and objsb = "[\<lparr>Key = ''c'', Size = 1\<rparr>]" and lastkeyb = "''b''"
      and sentb = "[\<lparr>Key = ''c'', Size = 1\<rparr>]" and lkb = "''c''" and sb = "()"
      and objsc = "[]" and sb' = "()"]
  by (simp add: Iterate_def table_store_def numeral_nat)
section \<open>Properties of replicate\<close>

lemma maxBlock_value: "maxBlock = 10485760"
  by (simp add: maxBlock_def)

lemma read_whole: "read_range content 0 (- 1) = content"
  by (simp add: read_range_def)

lemma read_first: "0 \<le> n \<Longrightarrow> read_range content 0 n = take (nat n) content"
  by (simp add: read_range_def)

lemma read_rest: "read_range content (int k) (- 1) = drop k content"
  by (simp add: read_range_def)

text \<open>
  Claim C3. Take an object listed with a size above \<^verbatim>\<open>maxBlock\<close> (10 MiB), held by the source
  with that many bytes, and a file system that does not fail. Then \<^verbatim>\<open>replicate\<close> reads
  the first \<^verbatim>\<open>maxBlock\<close> bytes, and no more, with a first request; creates the temporary
  file and removes its name at once; writes those bytes to it; asks with a second
  request for the bytes from the offset \<^verbatim>\<open>maxBlock\<close> to the end, which are not empty and
  are copied to the file; and, from the start of the file, hands the destination the
  bytes of the object, all of them and in order, the byte at the offset \<^verbatim>\<open>maxBlock\<close>
  included. Its result is the result of that write.
\<close>

theorem replicate_large_object:
  assumes "maxBlock < Size obj" and "m (Key obj) = Some content"
    and "int (length content) = Size obj"
    and "TempFile fs = None" and "\<forall>bytes. Write fs bytes = None" and "Seek fs = None"
  shows "replicate_obj (holding m) dst fs obj =
           (Put dst (Key obj) content,
            [SrcGet (Key obj) 0 maxBlock, CreateTemp, Remove,
             WriteFile (take (nat maxBlock) content),
             SrcGet (Key obj) maxBlock (- 1), CopyToFile (drop (nat maxBlock) content),
             SeekStart, DstPut (Key obj) content, CloseFile]) \<and>
         length (take (nat maxBlock) content) = nat maxBlock \<and>
         drop (nat maxBlock) content \<noteq> []"
proof -
  have pos: "0 \<le> maxBlock" by (simp add: maxBlock_value)
  have len: "nat maxBlock < length content"
    using assms(1,3) pos by linarith
  have first: "Get (holding m) (Key obj) 0 maxBlock =
      Inr (Reader (take (nat maxBlock) content) None)"
    using assms(2) pos by (simp add: holding_def read_first)
  have off: "int (length (take (nat maxBlock) content)) = maxBlock"
    using len pos by simp
  have second: "Get (holding m) (Key obj) maxBlock (- 1) =
      Inr (Reader (drop (nat maxBlock) content) None)"
    using assms(2) read_rest [of content "nat maxBlock"] pos by (simp add: holding_def)
  have ne: "maxBlock \<noteq> - 1" using pos by simp
  have rest: "drop (nat maxBlock) content \<noteq> []"
    using len by simp
  have "replicate_obj (holding m) dst fs obj =
           (Put dst (Key obj) content,
            [SrcGet (Key obj) 0 maxBlock, CreateTemp, Remove,
             WriteFile (take (nat maxBlock) content),
             SrcGet (Key obj) maxBlock (- 1), CopyToFile (drop (nat maxBlock) content),
             SeekStart, DstPut (Key obj) content, CloseFile])"
    unfolding replicate_obj_def Let_def
    using assms(1,4,5,6) first off second ne
    by (simp add: copy_error_def)
  then show ?thesis using len rest by simp
qed

theorem replicate_large_object_witness:
  "maxBlock < Size \<lparr>Key = ''k'', Size = 10485761\<rparr> \<and>
   int (length (replicate 10485760 (1 :: byte) @ [2])) = Size \<lparr>Key = ''k'', Size = 10485761\<rparr> \<and>
   replicate_obj (holding [''k'' \<mapsto> replicate 10485760 1 @ [2]]) (holding Map.empty) sound_fs
       \<lparr>Key = ''k'', Size = 10485761\<rparr> =
     (None,
      [SrcGet ''k'' 0 10485760, CreateTemp, Remove, WriteFile (replicate 10485760 1),
       SrcGet ''k'' 10485760 (- 1), CopyToFile [2], SeekStart,
       DstPut ''k'' (replicate 10485760 1 @ [2]), CloseFile])"
  using replicate_large_object [where obj = "\<lparr>Key = ''k'', Size = 10485761\<rparr>"
      and m = "[''k'' \<mapsto> replicate 10485760 1 @ [2]]"
      and content = "replicate 10485760 1 @ [2]" and fs = sound_fs
      and dst = "holding Map.empty"]
  by (simp add: maxBlock_value sound_fs_def holding_def)

text \<open>
  Claim C4. For an object listed with a size of at most \<^verbatim>\<open>maxBlock\<close> that the source
  holds, \<^verbatim>\<open>replicate\<close> makes one request to the source, for the whole object (offset 0,
  limit -1), and one write to the destination, of the bytes of the object; it creates no
  temporary file, and its result is the result of that write.
\<close>

theorem replicate_small_object:
  assumes "Size obj \<le> maxBlock" and "m (Key obj) = Some content"
  shows "replicate_obj (holding m) dst fs obj =
           (Put dst (Key obj) content, [SrcGet (Key obj) 0 (- 1), DstPut (Key obj) content])"
  using assms by (simp add: replicate_obj_def holding_def read_whole Let_def)

theorem replicate_small_object_witness:
  "Size \<lparr>Key = ''k'', Size = 3\<rparr> \<le> maxBlock \<and>
   replicate_obj (holding [''k'' \<mapsto> [1, 2, 3]]) (holding Map.empty) sound_fs
       \<lparr>Key = ''k'', Size = 3\<rparr> =
     (None, [SrcGet ''k'' 0 (- 1), DstPut ''k'' [1, 2, 3]])"
  using replicate_small_object [where obj = "\<lparr>Key = ''k'', Size = 3\<rparr>"
      and m = "[''k'' \<mapsto> [1, 2, 3]]" and content = "[1, 2, 3]" and fs = sound_fs
      and dst = "holding Map.empty"]
  by (simp add: maxBlock_value holding_def)

text \<open>
  Claim C5. When the first read of the source fails, \<^verbatim>\<open>replicate\<close> asks the source whether
  the key exists and does nothing else. If the key is not there it returns nil, and the
  worker counts the object in \<^verbatim>\<open>copied\<close> and leaves \<^verbatim>\<open>failed\<close> as it is; otherwise it
  returns the error of the read, and the worker counts it in \<^verbatim>\<open>failed\<close>.
\<close>

theorem replicate_read_failure:
  assumes "Get src (Key obj) 0 (if maxBlock < Size obj then maxBlock else - 1) = Inl e"
  shows "replicate_obj src dst fs obj =
           (if Exists src (Key obj) \<noteq> None then None else Some e,
            [SrcGet (Key obj) 0 (if maxBlock < Size obj then maxBlock else - 1),
             SrcExists (Key obj)]) \<and>
         (Exists src (Key obj) \<noteq> None \<longrightarrow>
            failed (worker src dst fs cnt obj) = failed cnt \<and>
            copied (worker src dst fs cnt obj) = copied cnt + 1) \<and>
         (Exists src (Key obj) = None \<longrightarrow>
            failed (worker src dst fs cnt obj) = failed cnt + 1 \<and>
            copied (worker src dst fs cnt obj) = copied cnt)"
  using assms by (auto simp: replicate_obj_def worker_def Let_def)

theorem replicate_read_failure_witness:
  "Get \<lparr>Get = (\<lambda>key off len. Inl (Err 7)), Exists = (\<lambda>key. Some (Err 404)),
        Put = (\<lambda>key bytes. None)\<rparr> (Key \<lparr>Key = ''gone'', Size = 5\<rparr>) 0
      (if maxBlock < Size \<lparr>Key = ''gone'', Size = 5\<rparr> then maxBlock else - 1) = Inl (Err 7) \<and>
   replicate_obj
       \<lparr>Get = (\<lambda>key off len. Inl (Err 7)), Exists = (\<lambda>key. Some (Err 404)),
         Put = (\<lambda>key bytes. None)\<rparr> (holding Map.empty) sound_fs \<lparr>Key = ''gone'', Size = 5\<rparr> =
     (None, [SrcGet ''gone'' 0 (- 1), SrcExists ''gone'']) \<and>
   failed (worker
       \<lparr>Get = (\<lambda>key off len. Inl (Err 7)), Exists = (\<lambda>key. Some (Err 404)),
         Put = (\<lambda>key bytes. None)\<rparr> (holding Map.empty) sound_fs zero_stats
       \<lparr>Key = ''gone'', Size = 5\<rparr>) = 0"
  using replicate_read_failure [where obj = "\<lparr>Key = ''gone'', Size = 5\<rparr>"
      and src = "\<lparr>Get = (\<lambda>key off len. Inl (Err 7)), Exists = (\<lambda>key. Some (Err 404)),
         Put = (\<lambda>key bytes. None)\<rparr>"
      and e = "Err 7" and dst = "holding Map.empty" and fs = sound_fs and cnt = zero_stats]
  by (simp add: maxBlock_value zero_stats_def)

section \<open>Properties of showProgress\<close>

text \<open>
  Claim C7. One turn of the loop of \<^verbatim>\<open>showProgress\<close> divides by \<^verbatim>\<open>found\<close>, for the two
  widths of the bar and for the percentage, with no guard: it panics with a division by
  zero exactly when \<^verbatim>\<open>found\<close> is zero, and otherwise it prints a bar of 80 bytes and the
  percentage.
\<close>

theorem showProgress_divides_by_found:
  "(showProgress_step cnt = Inl DivideByZero \<longleftrightarrow> found cnt = 0) \<and>
   (found cnt \<noteq> 0 \<longrightarrow>
      showProgress_step cnt =
        Inr (bar_of (80 * (found cnt - missing cnt) div found cnt) (80 * copied cnt div found cnt),
             (found cnt - missing cnt + copied cnt) * 100 div found cnt) \<and>
      length (bar_of (80 * (found cnt - missing cnt) div found cnt)
                (80 * copied cnt div found cnt)) = 80)"
  by (simp add: showProgress_step_def div64_def bar_of_def Let_def)

theorem showProgress_divides_by_found_witness:
  "found \<lparr>found = 4, missing = 1, copied = 1, failed = 0\<rparr> \<noteq> 0 \<and>
   showProgress_step \<lparr>found = 4, missing = 1, copied = 1, failed = 0\<rparr> =
     Inr (bar_of 60 20, 100) \<and>
   showProgress_step zero_stats = Inl DivideByZero"
  using showProgress_divides_by_found [of "\<lparr>found = 4, missing = 1, copied = 1, failed = 0\<rparr>"]
    showProgress_divides_by_found [of zero_stats]
  by (simp add: zero_stats_def)

section \<open>Properties of Sync\<close>

lemma Iterate_fails:
  "(Iterate fuel store s marker endkey = Inl err) =
     (\<exists>s'. store s '''' marker MaxResults = (Inl err, s'))"
  by (cases "store s '''' marker MaxResults")
    (auto simp: Iterate_def split: sum.splits prod.splits)

text \<open>
  Claim C6, as the code has it. \<^verbatim>\<open>Sync\<close> returns an error that is not nil only when the
  request for the first page of the source or of the destination fails, and the error
  is that of the request. It does return it when the first page of the source fails,
  and when the first page of the destination fails and the goroutine of the source
  closes its channel; the counters are then untouched. A failed listing in the middle
  of a stream (a nil on the channel) never makes \<^verbatim>\<open>Sync\<close> return an error: with both first
  pages fetched, both channels closed and no progress reporter, \<^verbatim>\<open>Sync\<close> returns nil,
  with the counters as the loop of \<^verbatim>\<open>doSync\<close> and its workers leave them.
\<close>

theorem Sync_error_only_from_first_pages:
  "((\<exists>c. Sync fuel src_list s_src src dst_list s_dst dst fs progress marker endkey cnt =
          Returned (Some err) c) \<longleftrightarrow>
      (\<exists>s'. src_list s_src '''' marker MaxResults = (Inl err, s')) \<or>
      ((\<exists>cha ra. Iterate fuel src_list s_src marker endkey = Inr (cha, Closed ra)) \<and>
       (\<exists>s'. dst_list s_dst '''' marker MaxResults = (Inl err, s')))) \<and>
   (Sync fuel src_list s_src src dst_list s_dst dst fs progress marker endkey cnt =
      Returned (Some err) c \<longrightarrow> c = cnt) \<and>
   (Iterate fuel src_list s_src marker endkey = Inr (cha, Closed ra) \<and>
    Iterate fuel dst_list s_dst marker endkey = Inr (chb, Closed rb) \<and> \<not> progress \<longrightarrow>
      Sync fuel src_list s_src src dst_list s_dst dst fs progress marker endkey cnt =
        Returned None
          (workers src dst fs (counters (doSync cnt (channel cha) (channel chb)))
             (todo (doSync cnt (channel cha) (channel chb)))))"
proof (intro conjI impI)
  show "(\<exists>c. Sync fuel src_list s_src src dst_list s_dst dst fs progress marker endkey cnt =
          Returned (Some err) c) \<longleftrightarrow>
      (\<exists>s'. src_list s_src '''' marker MaxResults = (Inl err, s')) \<or>
      ((\<exists>cha ra. Iterate fuel src_list s_src marker endkey = Inr (cha, Closed ra)) \<and>
       (\<exists>s'. dst_list s_dst '''' marker MaxResults = (Inl err, s')))"
  proof (cases "Iterate fuel src_list s_src marker endkey")
    case (Inl e1)
    then have "\<exists>s'. src_list s_src '''' marker MaxResults = (Inl e1, s')"
      by (simp add: Iterate_fails)
    then show ?thesis using Inl by (auto simp: Sync_def)
  next
    case a: (Inr ra)
    obtain cha ea where ra: "ra = (cha, ea)" by (cases ra)
    have nofail: "\<not> (\<exists>s'. src_list s_src '''' marker MaxResults = (Inl err, s'))"
      using a Iterate_fails [of fuel src_list s_src marker endkey err] by simp
    show ?thesis
    proof (cases "Iterate fuel dst_list s_dst marker endkey")
      case (Inl e2)
      then have f: "(\<exists>s'. dst_list s_dst '''' marker MaxResults = (Inl err, s')) = (e2 = err)"
        using Iterate_fails [of fuel dst_list s_dst marker endkey] by (metis sum.inject(1))
      show ?thesis
        using a ra Inl nofail f by (cases ea) (auto simp: Sync_def)
    next
      case b: (Inr rb)
      obtain chb eb where rb: "rb = (chb, eb)" by (cases rb)
      have "\<not> (\<exists>s'. dst_list s_dst '''' marker MaxResults = (Inl err, s'))"
        using b Iterate_fails [of fuel dst_list s_dst marker endkey err] by simp
      then show ?thesis
        using a ra b rb nofail
        by (cases ea; cases eb) (simp_all add: Sync_def Let_def)
    qed
  qed
next
  assume "Sync fuel src_list s_src src dst_list s_dst dst fs progress marker endkey cnt =
      Returned (Some err) c"
  then show "c = cnt"
    by (auto simp: Sync_def Let_def split: sum.splits prod.splits ending.splits if_splits)
next
  assume "Iterate fuel src_list s_src marker endkey = Inr (cha, Closed ra) \<and>
    Iterate fuel dst_list s_dst marker endkey = Inr (chb, Closed rb) \<and> \<not> progress"
  then show "Sync fuel src_list s_src src dst_list s_dst dst fs progress marker endkey cnt =
        Returned None
          (workers src dst fs (counters (doSync cnt (channel cha) (channel chb)))
             (todo (doSync cnt (channel cha) (channel chb))))"
    by (simp add: Sync_def Let_def)
qed

theorem Sync_error_only_from_first_pages_witness:
  "Iterate 3 (table_store [('''', [\<lparr>Key = ''a'', Size = 3\<rparr>])] [''a'']) () '''' '''' =
     Inr ([Request '''', Send (Some \<lparr>Key = ''a'', Size = 3\<rparr>), Request ''a'', Send None],
          Closed (ListFailed (Err 1))) \<and>
   Iterate 3 (table_store [] []) () '''' '''' = Inr ([Request ''''], Closed EmptyPage) \<and>
   Sync 3 (table_store [('''', [\<lparr>Key = ''a'', Size = 3\<rparr>])] [''a'']) ()
       (holding [''a'' \<mapsto> [1, 2, 3]]) (table_store [] []) () (holding Map.empty) sound_fs False
       '''' '''' zero_stats =
     Returned None \<lparr>found = 1, missing = 1, copied = 1, failed = 0\<rparr> \<and>
   table_store [] [''''] () '''' '''' MaxResults = (Inl (Err 1), ()) \<and>
   Sync 3 (table_store [] []) () (holding Map.empty) (table_store [] ['''']) ()
       (holding Map.empty) sound_fs False '''' '''' zero_stats =
     Returned (Some (Err 1)) zero_stats"
  using Sync_error_only_from_first_pages [where fuel = 3
      and src_list = "table_store [('''', [\<lparr>Key = ''a'', Size = 3\<rparr>])] [''a'']" and s_src = "()"
      and src = "holding [''a'' \<mapsto> [1, 2, 3]]"
      and dst_list = "table_store [] []" and s_dst = "()" and dst = "holding Map.empty"
      and fs = sound_fs and progress = False and marker = "''''" and endkey = "''''"
      and cnt = zero_stats and err = "Err 1" and c = zero_stats
      and cha = "[Request '''', Send (Some \<lparr>Key = ''a'', Size = 3\<rparr>), Request ''a'', Send None]"
      and ra = "ListFailed (Err 1)" and chb = "[Request '''']" and rb = EmptyPage]
    Sync_error_only_from_first_pages [where fuel = 3
      and src_list = "table_store [] []" and s_src = "()" and src = "holding Map.empty"
      and dst_list = "table_store [] ['''']" and s_dst = "()" and dst = "holding Map.empty"
      and fs = sound_fs and progress = False and marker = "''''" and endkey = "''''"
      and cnt = zero_stats and err = "Err 1" and c = zero_stats
      and cha = "[Request '''']" and ra = EmptyPage and chb = "[Request '''']" and rb = EmptyPage]
  by (simp add: Sync_def Iterate_def table_store_def numeral_nat doSync_def sync_body_def
      advance.simps zero_stats_def workers_def worker_def replicate_obj_def holding_def
      read_range_def maxBlock_def Let_def)

text \<open>
  Claim C6 as stated fails when the first page of the destination cannot be fetched
  while the goroutine of the source, which runs already, meets keys out of order: the
  source lists \<open>''b''\<close> and then \<open>''a''\<close>, so its goroutine ends the process by
  \<^verbatim>\<open>logger.Fatalf\<close>, and \<^verbatim>\<open>Sync\<close> is not sure to return the error of the destination.
\<close>

theorem Sync_fatal_source_counterexample:
  "table_store [] [''''] () '''' '''' MaxResults = (Inl (Err 1), ()) \<and>
   Iterate 3 (table_store [('''', [\<lparr>Key = ''b'', Size = 1\<rparr>, \<lparr>Key = ''a'', Size = 1\<rparr>])] [])
       () '''' '''' =
     Inr ([Request '''', Send (Some \<lparr>Key = ''b'', Size = 1\<rparr>)], Fatal) \<and>
   Sync 3 (table_store [('''', [\<lparr>Key = ''b'', Size = 1\<rparr>, \<lparr>Key = ''a'', Size = 1\<rparr>])] []) ()
       (holding Map.empty) (table_store [] ['''']) () (holding Map.empty) sound_fs False
       '''' '''' zero_stats = Undetermined"
  by (simp add: Sync_def Iterate_def table_store_def numeral_nat)

end
